theory Spec2Isabelle
  imports Main "HOL-Library.Char_ord" "HOL-Library.List_Lexorder" "HOL-Library.Sublist"
    "HOL-Library.Signed_Division"
begin

section \<open>Existential graphs: the data model of \<open>aegraph.cpp\<close>\<close>

text \<open>
  An \<open>AEGraph\<close> object has three fields: the flag \<open>is_SA\<close> (sheet of assertion or cut),
  the vector \<open>atoms\<close> of strings and the vector \<open>subgraphs\<close> of nested graphs. A
  \<open>std::string\<close> is a list of bytes; \<open>std::string::operator<\<close> compares bytes as unsigned
  values, lexicographically, which is the order of \<open>Char_ord\<close> lifted by \<open>List_Lexorder\<close>.

  Reading a vector or string out of range, and a failing \<open>assert\<close>, are values of the
  type \<open>error\<close>. Element counts are natural numbers (they stay far below \<open>2^31\<close>, so the
  conversion of \<open>size()\<close> to \<open>int\<close> is the identity); the entries of an address are
  \<open>int\<close>, as in \<open>std::vector<int>\<close>, and may be negative.
\<close>

datatype error = AssertionFailed | OutOfRange

datatype AEGraph = AEGraph (is_SA: bool) (atoms: "string list") (subgraphs: "AEGraph list")

definition num_subgraphs :: "AEGraph \<Rightarrow> nat" where
  "num_subgraphs g = length (subgraphs g)"

definition num_atoms :: "AEGraph \<Rightarrow> nat" where
  "num_atoms g = length (atoms g)"

definition size_graph :: "AEGraph \<Rightarrow> nat" where
  "size_graph g = num_atoms g + num_subgraphs g"

text \<open>\<open>v[i]\<close> for an \<open>int\<close> index: defined only inside the vector.\<close>

definition nth_opt :: "'a list \<Rightarrow> int \<Rightarrow> 'a option" where
  "nth_opt xs i = (if 0 \<le> i \<and> i < int (length xs) then Some (xs ! nat i) else None)"

text \<open>\<open>v.erase(v.begin() + i)\<close> for an index inside the vector.\<close>

definition remove_nth :: "nat \<Rightarrow> 'a list \<Rightarrow> 'a list" where
  "remove_nth i xs = take i xs @ drop (Suc i) xs"

subsection \<open>Splitting the text\<close>

definition is_ws :: "char \<Rightarrow> bool" where
  "is_ws c = (c = CHR '' '' \<or> c = CHR 0x0A \<or> c = CHR 0x0D \<or> c = CHR 0x09)"

text \<open>
  \<open>strip\<close>: \<open>find_first_not_of\<close> gives \<open>npos\<close> on a string of blanks, so the first
  \<open>erase\<close> empties it; the second \<open>erase\<close> cuts after the last character that is not blank.
\<close>

definition strip :: "string \<Rightarrow> string" where
  "strip s = rev (dropWhile is_ws (rev (dropWhile is_ws s)))"

text \<open>
  The loop of \<open>split_first\<close>: \<open>pre\<close> is \<open>s.substr(0, i)\<close>, the second list is the text from
  position \<open>i\<close> on, \<open>numOpen\<close> the bracket counter (a signed integer, it may go negative).
\<close>

fun split_first_loop :: "char \<Rightarrow> string \<Rightarrow> string \<Rightarrow> int \<Rightarrow> string \<times> string" where
  "split_first_loop delimiter pre [] numOpen = (strip pre, [])"
| "split_first_loop delimiter pre (c # cs) numOpen =
     (if c = delimiter \<and> numOpen = 0 then (strip pre, strip cs)
      else
        let numOpen1 = (if c = CHR ''['' then numOpen + 1 else numOpen);
            numOpen2 = (if c = CHR '']'' then numOpen1 - 1 else numOpen1)
        in split_first_loop delimiter (pre @ [c]) cs numOpen2)"

definition split_first :: "char \<Rightarrow> string \<Rightarrow> string \<times> string" where
  "split_first delimiter s = split_first_loop delimiter [] s 0"

lemma length_strip_le: "length (strip s) \<le> length s"
proof -
  have "length (strip s) \<le> length (dropWhile is_ws s)"
    unfolding strip_def by (metis length_dropWhile_le length_rev)
  also have "\<dots> \<le> length s" by (rule length_dropWhile_le)
  finally show ?thesis .
qed

lemma split_first_loop_snd_less:
  "snd (split_first_loop d pre s n) \<noteq> [] \<Longrightarrow> length (snd (split_first_loop d pre s n)) < length s"
proof (induction s arbitrary: pre n)
  case Nil
  then show ?case by simp
next
  case (Cons c cs)
  show ?case
  proof (cases "c = d \<and> n = 0")
    case True
    then show ?thesis using length_strip_le [of cs] by simp
  next
    case False
    then show ?thesis using Cons.IH Cons.prems by (auto simp: Let_def less_Suc_eq)
  qed
qed

text \<open>
  \<open>split_level\<close>: the \<open>while (true)\<close> loop pushes the first element and stops when the
  rest is empty. The rest is shorter than the text each time, so the loop ends.
\<close>

function split_level :: "char \<Rightarrow> string \<Rightarrow> string list" where
  "split_level delimiter s =
     (let p = split_first delimiter s; fst' = fst p; snd' = snd p
      in if snd' = [] then [fst'] else fst' # split_level delimiter snd')"
  by pat_completeness auto
termination
  by (relation "measure (\<lambda>(d, s). length s)")
     (auto simp: split_first_def dest: split_first_loop_snd_less)

declare split_level.simps [simp del]

subsection \<open>Rendering\<close>

text \<open>
  \<open>repr\<close>: every subgraph is rendered and followed by \<open>", "\<close>; then the atoms, separated
  by \<open>", "\<close>; with no atom and at least one subgraph the last two characters are cut.
\<close>

fun repr :: "AEGraph \<Rightarrow> string" where
  "repr (AEGraph sa ats subs) =
     (let left = (if sa then ''('' else ''['');
          right = (if sa then '')'' else '']'');
          result = fold (\<lambda>subgraph r. r @ repr subgraph @ '', '') subs [];
          len = length ats
      in if len \<noteq> 0 then
           left @ (fold (\<lambda>i r. r @ ats ! i @ '', '') [0..<len - 1] result @ ats ! (len - 1)) @ right
         else if length subs \<noteq> 0 then left @ take (length result - 2) result @ right
         else left @ result @ right)"

text \<open>
  \<open>operator==\<close> compares the rendered texts; so does \<open>operator<\<close>, by which \<open>sort\<close>
  orders the subgraphs.
\<close>

definition graph_eq :: "AEGraph \<Rightarrow> AEGraph \<Rightarrow> bool" where
  "graph_eq g h = (repr g = repr h)"

subsection \<open>Sorting\<close>

text \<open>
  \<open>sort\<close>: the atoms are sorted, every subgraph is sorted, then the subgraphs are sorted
  by their rendered text. \<open>std::sort\<close> leaves the order of subgraphs with the same text
  open; the model keeps them in their order (\<open>sort_key\<close> is stable).
\<close>

fun sort_graph :: "AEGraph \<Rightarrow> AEGraph" where
  "sort_graph (AEGraph sa ats subs) = AEGraph sa (sort ats) (sort_key repr (map sort_graph subs))"

subsection \<open>Construction from text\<close>

text \<open>The first error of a sequence of results, or all the values.\<close>

fun collect :: "(error + 'a) list \<Rightarrow> error + 'a list" where
  "collect [] = Inr []"
| "collect (Inl e # rs) = Inl e"
| "collect (Inr x # rs) = (case collect rs of Inl e \<Rightarrow> Inl e | Inr xs \<Rightarrow> Inr (x # xs))"

text \<open>\<open>s[0] != '['\<close>: on the empty string \<open>s[0]\<close> is the terminating zero byte.\<close>

definition starts_cut :: "string \<Rightarrow> bool" where
  "starts_cut s = (case s of [] \<Rightarrow> False | c # _ \<Rightarrow> c = CHR ''['')"

lemma split_first_loop_fst_le:
  "length (fst (split_first_loop d pre s n)) \<le> length pre + length s"
proof (induction s arbitrary: pre n)
  case Nil
  then show ?case using length_strip_le [of pre] by simp
next
  case (Cons c cs)
  show ?case
  proof (cases "c = d \<and> n = 0")
    case True
    then show ?thesis using length_strip_le [of pre] by simp
  next
    case False
    then show ?thesis using Cons.IH [of "pre @ [c]"] by (auto simp: Let_def)
  qed
qed

lemma split_first_loop_snd_le:
  "length (snd (split_first_loop d pre s n)) \<le> length s"
  using split_first_loop_snd_less [of d pre s n] by (cases "snd (split_first_loop d pre s n) = []") auto

lemma split_level_length_le: "x \<in> set (split_level d s) \<Longrightarrow> length x \<le> length s"
proof (induction d s rule: split_level.induct)
  case (1 d s)
  let ?p = "split_first d s"
  show ?case
  proof (cases "snd ?p = []")
    case True
    with "1.prems" have "x = fst ?p" by (simp add: split_level.simps [of d s] Let_def)
    then show ?thesis using split_first_loop_fst_le [of d "[]" s 0] by (simp add: split_first_def)
  next
    case False
    with "1.prems" have "x = fst ?p \<or> x \<in> set (split_level d (snd ?p))"
      by (simp add: split_level.simps [of d s] Let_def)
    then show ?thesis
    proof
      assume "x = fst ?p"
      then show ?thesis using split_first_loop_fst_le [of d "[]" s 0] by (simp add: split_first_def)
    next
      assume "x \<in> set (split_level d (snd ?p))"
      then have "length x \<le> length (snd ?p)" using "1.IH" [OF refl refl refl False] by simp
      then show ?thesis using split_first_loop_snd_le [of d "[]" s 0] by (simp add: split_first_def)
    qed
  qed
qed

text \<open>
  The constructor \<open>AEGraph(std::string)\<close>. On the empty string \<open>representation[size() - 1]\<close>
  reads out of range. The \<open>assert\<close> wants a pair \<open>( )\<close> or \<open>[ ]\<close> around the text; a string
  of one character fails it, since that character is none of the two closing ones. The
  elements that start with \<open>[\<close> are constructed recursively, the others are atoms, and
  the new graph is sorted.
\<close>

function parse :: "string \<Rightarrow> error + AEGraph" where
  "parse representation =
     (if representation = [] then Inl OutOfRange
      else
        let left_sep = hd representation; right_sep = last representation
        in if \<not> ((left_sep = CHR ''('' \<and> right_sep = CHR '')'')
                  \<or> (left_sep = CHR ''['' \<and> right_sep = CHR '']'')) then Inl AssertionFailed
           else
             let inner = take (length representation - 2) (drop 1 representation);
                 v = split_level (CHR '','') inner
             in case collect (map parse (filter starts_cut v)) of
                  Inl e \<Rightarrow> Inl e
                | Inr subs \<Rightarrow>
                    Inr (sort_graph (AEGraph (left_sep = CHR ''('')
                           (filter (\<lambda>s. \<not> starts_cut s) v) subs)))"
  by pat_completeness auto
termination
proof (relation "measure length", goal_cases)
  case 1
  show ?case by simp
next
  case (2 representation left_sep right_sep inner v s)
  then have "length s \<le> length inner" using split_level_length_le [of s "CHR '',''" inner] by simp
  moreover have "length inner \<le> length representation - 1" using 2 by simp
  moreover have "representation \<noteq> []" using 2 by simp
  ultimately show ?case by (cases representation) auto
qed

declare parse.simps [simp del]

section \<open>Queries\<close>

text \<open>
  \<open>operator[]\<close>: the subgraph at \<open>index\<close>, or a graph constructed from the text of the
  atom at \<open>index - num_subgraphs()\<close> between parentheses, or the graph constructed from
  \<open>"()"\<close>. A negative index passes the first test and reads \<open>subgraphs\<close> out of range.
\<close>

definition index_op :: "AEGraph \<Rightarrow> int \<Rightarrow> error + AEGraph" where
  "index_op g index =
     (if index < int (num_subgraphs g) then
        (case nth_opt (subgraphs g) index of None \<Rightarrow> Inl OutOfRange | Some sg \<Rightarrow> Inr sg)
      else if index < int (num_subgraphs g) + int (num_atoms g) then
        parse (''('' @ atoms g ! nat (index - int (num_subgraphs g)) @ '')'')
      else parse ''()'')"

lemma size_nth_less [termination_simp]:
  "i < length xs \<Longrightarrow> size (xs ! i) < Suc (size_list size xs)"
proof -
  assume "i < length xs"
  then have "xs ! i \<in> set xs" by simp
  then have "size (xs ! i) \<le> size_list size xs" by (rule size_list_estimation') simp
  then show ?thesis by simp
qed

fun contains_atom :: "AEGraph \<Rightarrow> string \<Rightarrow> bool" where
  "contains_atom (AEGraph sa ats subs) other =
     (if other \<in> set ats then True else list_ex (\<lambda>sg. contains_atom sg other) subs)"

text \<open>
  \<open>get_paths_to\<close> for an atom: the loop over the atoms pushes \<open>{i + len_subgraphs}\<close>, the
  loop over the subgraphs appends the paths found in a subgraph that contains the atom,
  each with \<open>i\<close> in front.
\<close>

fun get_paths_to_atom :: "AEGraph \<Rightarrow> string \<Rightarrow> int list list" where
  "get_paths_to_atom (AEGraph sa ats subs) other =
     (let len_atoms = length ats; len_subgraphs = length subs;
          paths1 = fold (\<lambda>i paths.
                     if ats ! i = other \<and> length ats + length subs > 1
                     then paths @ [[int i + int len_subgraphs]] else paths)
                   [0..<len_atoms] []
      in fold (\<lambda>i paths.
                 if contains_atom (subs ! i) other
                 then paths @ map ((#) (int i)) (get_paths_to_atom (subs ! i) other)
                 else paths)
              [0..<len_subgraphs] paths1)"

text \<open>\<open>get_paths_to\<close> for a subgraph: a match is pushed, anything else is searched.\<close>

fun get_paths_to_graph :: "AEGraph \<Rightarrow> AEGraph \<Rightarrow> int list list" where
  "get_paths_to_graph (AEGraph sa ats subs) other =
     fold (\<lambda>i paths.
             if graph_eq (subs ! i) other \<and> length ats + length subs > 1
             then paths @ [[int i]]
             else paths @ map ((#) (int i)) (get_paths_to_graph (subs ! i) other))
          [0..<length subs] []"

section \<open>Double cut\<close>

fun possible_double_cuts :: "AEGraph \<Rightarrow> int list list" where
  "possible_double_cuts (AEGraph sa ats subs) =
     fold (\<lambda>i road.
             let road1 = (if num_subgraphs (subs ! i) = 1 \<and> num_atoms (subs ! i) = 0
                          then road @ [[int i]] else road)
             in road1 @ map ((#) (int i)) (possible_double_cuts (subs ! i)))
          [0..<length subs] []"

text \<open>
  The helpers take \<open>where\<close> by value: each call works on a fresh copy of the vector, whose
  capacity is its size, so \<open>where.capacity() != 1\<close> asks whether the address has not
  exactly one entry. With no entry at all \<open>where[0]\<close> reads out of range. The reference
  \<open>node\<close> is updated in place: the model returns the updated node, and the caller puts
  it back at \<open>index\<close>.

  At the last index, \<open>aux\<close> is a copy of the first subgraph of the subgraph at
  \<open>where[0]\<close>; its subgraphs and its atoms are pushed to the back of those of \<open>node\<close>, and
  the subgraph at \<open>where[0]\<close> is erased.
\<close>

fun double_cut_helper :: "int list \<Rightarrow> AEGraph \<Rightarrow> error + AEGraph" where
  "double_cut_helper [] node = Inl OutOfRange"
| "double_cut_helper [w0] node =
     (case nth_opt (subgraphs node) w0 of
        None \<Rightarrow> Inl OutOfRange
      | Some outer \<Rightarrow>
          (case subgraphs outer of
             [] \<Rightarrow> Inl OutOfRange
           | aux # _ \<Rightarrow>
               Inr (AEGraph (is_SA node) (atoms node @ atoms aux)
                      (remove_nth (nat w0) (subgraphs node @ subgraphs aux)))))"
| "double_cut_helper (index # rest) node =
     (case nth_opt (subgraphs node) index of
        None \<Rightarrow> Inl OutOfRange
      | Some sub \<Rightarrow>
          (case double_cut_helper rest sub of
             Inl e \<Rightarrow> Inl e
           | Inr sub' \<Rightarrow>
               Inr (AEGraph (is_SA node) (atoms node) ((subgraphs node)[nat index := sub']))))"

definition double_cut :: "AEGraph \<Rightarrow> int list \<Rightarrow> error + AEGraph" where
  "double_cut g where = double_cut_helper where g"

section \<open>Erasure\<close>

text \<open>
  \<open>level % 2\<close> is the remainder of the truncating division of C++ (\<open>smod\<close>). In an odd
  level \<open>{i}\<close> is pushed, and popped again by one of the two tests that follow. The level
  grows by one per nested cut and stays far below \<open>2^31\<close>: it is an unbounded integer here.
\<close>

fun possible_erasures :: "int \<Rightarrow> AEGraph \<Rightarrow> int list list" where
  "possible_erasures level (AEGraph sa ats subs) =
     (let len_subgraphs = length subs; len_atoms = length ats
      in fold (\<lambda>i road.
                 let road1 =
                       (if level smod 2 \<noteq> 0 then
                          let r1 = road @ [[int i]];
                              r2 = (if level \<noteq> - 1 \<and> (len_subgraphs = 0 \<and> len_atoms = 1) \<and> length r1 \<noteq> 0
                                    then butlast r1 else r1);
                              r3 = (if level \<noteq> - 1 \<and> (len_subgraphs = 1 \<and> len_atoms = 0) \<and> length r2 \<noteq> 0
                                    then butlast r2 else r2)
                          in r3
                        else road)
                 in if i < len_subgraphs
                    then road1 @ map ((#) (int i)) (possible_erasures (level + 1) (subs ! i))
                    else road1)
              [0..<len_subgraphs + len_atoms] [])"

text \<open>
  At the last index: with \<open>num_subgraphs() - where[0] <= 0\<close> the atom at
  \<open>where[0] - num_subgraphs()\<close> is erased, otherwise the subgraph at \<open>where[0]\<close>.
\<close>

fun erase_helper :: "int list \<Rightarrow> AEGraph \<Rightarrow> error + AEGraph" where
  "erase_helper [] node = Inl OutOfRange"
| "erase_helper [w0] node =
     (if int (num_subgraphs node) - w0 \<le> 0 then
        (if w0 - int (num_subgraphs node) < int (num_atoms node)
         then Inr (AEGraph (is_SA node)
                     (remove_nth (nat (w0 - int (num_subgraphs node))) (atoms node)) (subgraphs node))
         else Inl OutOfRange)
      else
        (if 0 \<le> w0
         then Inr (AEGraph (is_SA node) (atoms node) (remove_nth (nat w0) (subgraphs node)))
         else Inl OutOfRange))"
| "erase_helper (index # rest) node =
     (case nth_opt (subgraphs node) index of
        None \<Rightarrow> Inl OutOfRange
      | Some sub \<Rightarrow>
          (case erase_helper rest sub of
             Inl e \<Rightarrow> Inl e
           | Inr sub' \<Rightarrow>
               Inr (AEGraph (is_SA node) (atoms node) ((subgraphs node)[nat index := sub']))))"

definition erase :: "AEGraph \<Rightarrow> int list \<Rightarrow> error + AEGraph" where
  "erase g where = erase_helper where g"

section \<open>Deiteration\<close>

definition possible_deiterations :: "AEGraph \<Rightarrow> int list list" where
  "possible_deiterations g =
     (let road1 =
            fold (\<lambda>i road.
                    fold (\<lambda>j road.
                            if i \<noteq> j
                            then road @ map ((#) (int j))
                                          (get_paths_to_graph (subgraphs g ! j) (subgraphs g ! i))
                            else road)
                         [0..<num_subgraphs g] road)
                 [0..<num_subgraphs g] []
      in fold (\<lambda>i road.
                 fold (\<lambda>j road.
                         road @ map ((#) (int j)) (get_paths_to_atom (subgraphs g ! j) (atoms g ! i)))
                      [0..<num_subgraphs g] road)
              [0..<num_atoms g] road1)"

fun deiterate_helper :: "int list \<Rightarrow> AEGraph \<Rightarrow> error + AEGraph" where
  "deiterate_helper [] node = Inl OutOfRange"
| "deiterate_helper [w0] node =
     (if int (num_subgraphs node) - w0 \<le> 0 then
        (if w0 - int (num_subgraphs node) < int (num_atoms node)
         then Inr (AEGraph (is_SA node)
                     (remove_nth (nat (w0 - int (num_subgraphs node))) (atoms node)) (subgraphs node))
         else Inl OutOfRange)
      else
        (if 0 \<le> w0
         then Inr (AEGraph (is_SA node) (atoms node) (remove_nth (nat w0) (subgraphs node)))
         else Inl OutOfRange))"
| "deiterate_helper (index # rest) node =
     (case nth_opt (subgraphs node) index of
        None \<Rightarrow> Inl OutOfRange
      | Some sub \<Rightarrow>
          (case deiterate_helper rest sub of
             Inl e \<Rightarrow> Inl e
           | Inr sub' \<Rightarrow>
               Inr (AEGraph (is_SA node) (atoms node) ((subgraphs node)[nat index := sub']))))"

definition deiterate :: "AEGraph \<Rightarrow> int list \<Rightarrow> error + AEGraph" where
  "deiterate g where = deiterate_helper where g"

section \<open>Addresses\<close>

text \<open>
  The node an address leads to by descending through subgraphs, one index per level, as
  the helpers descend.
\<close>

fun node_at :: "AEGraph \<Rightarrow> int list \<Rightarrow> AEGraph option" where
  "node_at g [] = Some g"
| "node_at g (i # p) =
     (case nth_opt (subgraphs g) i of None \<Rightarrow> None | Some c \<Rightarrow> node_at c p)"

text \<open>The graph \<open>g\<close> with the node at the end of the path \<open>p\<close> replaced by \<open>n\<close>.\<close>

fun with_node_at :: "AEGraph \<Rightarrow> int list \<Rightarrow> AEGraph \<Rightarrow> AEGraph" where
  "with_node_at g [] n = n"
| "with_node_at g (i # p) n =
     AEGraph (is_SA g) (atoms g)
       ((subgraphs g)[nat i := with_node_at (subgraphs g ! nat i) p n])"

text \<open>
  What an address names: its last index is read in the index space of its level, where
  the subgraphs come first and the atoms follow, as \<open>erase_helper\<close> and \<open>operator[]\<close> read it;
  the indices before it descend through subgraphs.
\<close>

datatype element = Child AEGraph | Atom string

fun resolve :: "AEGraph \<Rightarrow> int list \<Rightarrow> element option" where
  "resolve g [] = None"
| "resolve g [i] =
     (if 0 \<le> i \<and> i < int (num_subgraphs g) then Some (Child (subgraphs g ! nat i))
      else if int (num_subgraphs g) \<le> i \<and> i < int (num_subgraphs g) + int (num_atoms g)
      then Some (Atom (atoms g ! nat (i - int (num_subgraphs g))))
      else None)"
| "resolve g (i # p) =
     (case nth_opt (subgraphs g) i of None \<Rightarrow> None | Some c \<Rightarrow> resolve c p)"

section \<open>Canonical graphs\<close>

text \<open>
  A graph is canonicalized when its atoms are sorted, its subgraphs are sorted by their
  rendered text, and every subgraph is canonicalized.
\<close>

fun canonical :: "AEGraph \<Rightarrow> bool" where
  "canonical (AEGraph sa ats subs) =
     (sorted ats \<and> sorted (map repr subs) \<and> list_all canonical subs)"

section \<open>Texts of well-formed graphs\<close>

text \<open>The elements of a level, joined by \<open>", "\<close>.\<close>

fun join :: "string list \<Rightarrow> string" where
  "join [] = []"
| "join [x] = x"
| "join (x # y # zs) = x @ '', '' @ join (y # zs)"

text \<open>
  The bracket depth after a text, for a text that never closes more brackets than are
  open; \<open>None\<close> when it does.
\<close>

fun nest :: "string \<Rightarrow> nat \<Rightarrow> nat option" where
  "nest [] n = Some n"
| "nest (c # cs) n =
     (if c = CHR ''['' then nest cs (Suc n)
      else if c = CHR '']'' then (case n of 0 \<Rightarrow> None | Suc m \<Rightarrow> nest cs m)
      else nest cs n)"

text \<open>
  A text in which, read from bracket depth \<open>n\<close>, every bracket is matched and every comma
  lies inside brackets.
\<close>

fun matched :: "string \<Rightarrow> nat \<Rightarrow> bool" where
  "matched [] n = (n = 0)"
| "matched (c # cs) n =
     (if c = CHR ''['' then matched cs (Suc n)
      else if c = CHR '']'' then (case n of 0 \<Rightarrow> False | Suc m \<Rightarrow> matched cs m)
      else (c = CHR '','' \<longrightarrow> 0 < n) \<and> matched cs n)"

text \<open>
  A plain atom: its brackets are matched and its commas lie inside brackets, it does not
  start with \<open>[\<close>, and it neither starts nor ends with a blank. The empty string, which the
  constructor stores for empty content, is one.
\<close>

definition plain_atom :: "string \<Rightarrow> bool" where
  "plain_atom a =
     (matched a 0 \<and> \<not> starts_cut a
      \<and> (a = [] \<or> (\<not> is_ws (hd a) \<and> \<not> is_ws (last a))))"

text \<open>
  A well-formed graph: every atom is plain, every nested node is a cut, and in no node
  the empty atom is the last of several elements. (The atoms are rendered after the
  subgraphs, so the last element of a node with atoms is its last atom.)
\<close>

fun well_formed :: "AEGraph \<Rightarrow> bool" where
  "well_formed (AEGraph sa ats subs) =
     (list_all plain_atom ats
      \<and> (ats = [] \<or> last ats \<noteq> [] \<or> (length ats = 1 \<and> subs = []))
      \<and> list_all (\<lambda>c. \<not> is_SA c \<and> well_formed c) subs)"

text \<open>A text that the scan of \<open>split_first\<close> passes over, at depth 0, without splitting.\<close>

definition transparent :: "string \<Rightarrow> bool" where
  "transparent x =
     (\<forall>pre t. split_first_loop (CHR '','') pre (x @ t) 0 = split_first_loop (CHR '','') (pre @ x) t 0)"

text \<open>An element of a level: no blank at its ends, passed over by the scan.\<close>

definition item :: "string \<Rightarrow> bool" where
  "item x = ((x = [] \<or> (\<not> is_ws (hd x) \<and> \<not> is_ws (last x))) \<and> transparent x)"

section \<open>Graphs built through the public interface\<close>

text \<open>
  The fields of an \<open>AEGraph\<close> are set by the constructor from text and changed by the rule
  appliers only. \<open>constructible\<close> collects the graphs these operations (and \<open>operator[]\<close>)
  return.
\<close>

inductive constructible :: "AEGraph \<Rightarrow> bool" where
  from_text: "parse s = Inr g \<Longrightarrow> constructible g"
| from_double_cut: "constructible g \<Longrightarrow> double_cut g a = Inr g' \<Longrightarrow> constructible g'"
| from_erase: "constructible g \<Longrightarrow> erase g a = Inr g' \<Longrightarrow> constructible g'"
| from_deiterate: "constructible g \<Longrightarrow> deiterate g a = Inr g' \<Longrightarrow> constructible g'"
| from_index: "constructible g \<Longrightarrow> index_op g i = Inr g' \<Longrightarrow> constructible g'"

text \<open>
  An atom as the constructor stores it: an element of \<open>split_level\<close>, which splits into
  itself alone, and which does not start with \<open>[\<close>.
\<close>

definition token :: "string \<Rightarrow> bool" where
  "token a = (split_level (CHR '','') a = [a] \<and> \<not> starts_cut a)"

fun tokens_only :: "AEGraph \<Rightarrow> bool" where
  "tokens_only (AEGraph sa ats subs) = (list_all token ats \<and> list_all tokens_only subs)"

text \<open>The scan of \<open>split_first\<close> from depth \<open>n\<close> finds no place to split in the text.\<close>

fun no_split :: "char \<Rightarrow> string \<Rightarrow> int \<Rightarrow> bool" where
  "no_split delimiter [] numOpen = True"
| "no_split delimiter (c # cs) numOpen =
     (\<not> (c = delimiter \<and> numOpen = 0) \<and>
      (let numOpen1 = (if c = CHR ''['' then numOpen + 1 else numOpen);
           numOpen2 = (if c = CHR '']'' then numOpen1 - 1 else numOpen1)
       in no_split delimiter cs numOpen2))"

section \<open>The loops as concatenations\<close>

text \<open>A loop that only appends to its result collects what each round appends.\<close>

lemma fold_append_acc:
  "(\<And>i acc. i \<in> set xs \<Longrightarrow> step i acc = acc @ f i) \<Longrightarrow> fold step xs init = init @ concat (map f xs)"
  by (induction xs arbitrary: init) auto

lemma possible_double_cuts_concat:
  "possible_double_cuts (AEGraph sa ats subs) =
     concat (map (\<lambda>i. (if num_subgraphs (subs ! i) = 1 \<and> num_atoms (subs ! i) = 0 then [[int i]] else [])
                       @ map ((#) (int i)) (possible_double_cuts (subs ! i)))
                 [0..<length subs])"
  by (simp del: possible_double_cuts.simps add: possible_double_cuts.simps [of sa ats subs],
      subst fold_append_acc) (auto simp: Let_def)

lemma in_possible_double_cuts:
  "a \<in> set (possible_double_cuts (AEGraph sa ats subs)) \<longleftrightarrow>
     (\<exists>i < length subs.
        (a = [int i] \<and> num_subgraphs (subs ! i) = 1 \<and> num_atoms (subs ! i) = 0)
        \<or> (\<exists>r \<in> set (possible_double_cuts (subs ! i)). a = int i # r))"
  unfolding possible_double_cuts_concat by (auto split: if_splits)

lemma in_concat_map_upt: "a \<in> set (concat (map f [0..<n])) \<longleftrightarrow> (\<exists>i<n. a \<in> set (f i))"
  by auto

lemma smod_2_odd: "(level::int) smod 2 \<noteq> 0 \<longleftrightarrow> odd level"
  unfolding signed_modulo_int_def
  apply (simp add: sgn_if)
  apply presburger
  done

lemma possible_erasures_concat:
  "possible_erasures level (AEGraph sa ats subs) =
     concat (map (\<lambda>i. (if odd level \<and> (level = - 1 \<or> length subs + length ats \<noteq> 1)
                        then [[int i]] else [])
                       @ (if i < length subs
                          then map ((#) (int i)) (possible_erasures (level + 1) (subs ! i)) else []))
                 [0..<length subs + length ats])"
proof -
  have "fold (\<lambda>i road.
                 let road1 =
                       (if level smod 2 \<noteq> 0 then
                          let r1 = road @ [[int i]];
                              r2 = (if level \<noteq> - 1 \<and> (length subs = 0 \<and> length ats = 1) \<and> length r1 \<noteq> 0
                                    then butlast r1 else r1);
                              r3 = (if level \<noteq> - 1 \<and> (length subs = 1 \<and> length ats = 0) \<and> length r2 \<noteq> 0
                                    then butlast r2 else r2)
                          in r3
                        else road)
                 in if i < length subs
                    then road1 @ map ((#) (int i)) (possible_erasures (level + 1) (subs ! i))
                    else road1)
              [0..<length subs + length ats] [] = [] @ concat (map (\<lambda>i. (if odd level \<and> (level = - 1 \<or> length subs + length ats \<noteq> 1)
                        then [[int i]] else [])
                       @ (if i < length subs
                          then map ((#) (int i)) (possible_erasures (level + 1) (subs ! i)) else []))
                 [0..<length subs + length ats])"
    by (rule fold_append_acc, cases subs; cases ats) (auto simp: Let_def smod_2_odd)
  then show ?thesis
    by (simp only: possible_erasures.simps [of level sa ats subs] Let_def append_Nil)
qed

lemma in_possible_erasures:
  "a \<in> set (possible_erasures level (AEGraph sa ats subs)) \<longleftrightarrow>
     (\<exists>i < length subs + length ats.
        (a = [int i] \<and> odd level \<and> (level = - 1 \<or> length subs + length ats \<noteq> 1))
        \<or> (i < length subs \<and> (\<exists>r \<in> set (possible_erasures (level + 1) (subs ! i)). a = int i # r)))"
  unfolding possible_erasures_concat
  by (simp only: set_append Un_iff in_concat_map_upt) (auto split: if_splits)

lemma get_paths_to_graph_concat:
  "get_paths_to_graph (AEGraph sa ats subs) other =
     concat (map (\<lambda>i. if graph_eq (subs ! i) other \<and> length ats + length subs > 1
                       then [[int i]]
                       else map ((#) (int i)) (get_paths_to_graph (subs ! i) other))
                 [0..<length subs])"
  by (simp del: get_paths_to_graph.simps add: get_paths_to_graph.simps [of sa ats subs],
      subst fold_append_acc) auto

lemma in_get_paths_to_graph:
  "a \<in> set (get_paths_to_graph (AEGraph sa ats subs) other) \<longleftrightarrow>
     (\<exists>i < length subs.
        if graph_eq (subs ! i) other \<and> length ats + length subs > 1 then a = [int i]
        else \<exists>r \<in> set (get_paths_to_graph (subs ! i) other). a = int i # r)"
  unfolding get_paths_to_graph_concat by (auto split: if_splits)

lemma get_paths_to_atom_concat:
  "get_paths_to_atom (AEGraph sa ats subs) other =
     concat (map (\<lambda>i. if ats ! i = other \<and> length ats + length subs > 1
                       then [[int i + int (length subs)]] else [])
                 [0..<length ats])
     @ concat (map (\<lambda>i. if contains_atom (subs ! i) other
                         then map ((#) (int i)) (get_paths_to_atom (subs ! i) other) else [])
                   [0..<length subs])"
proof -
  have 1: "fold (\<lambda>i paths. if ats ! i = other \<and> length ats + length subs > 1
                     then paths @ [[int i + int (length subs)]] else paths) [0..<length ats] []
        = [] @ concat (map (\<lambda>i. if ats ! i = other \<and> length ats + length subs > 1
                       then [[int i + int (length subs)]] else []) [0..<length ats])"
    by (rule fold_append_acc) auto
  have 2: "fold (\<lambda>i paths. if contains_atom (subs ! i) other
                 then paths @ map ((#) (int i)) (get_paths_to_atom (subs ! i) other)
                 else paths) [0..<length subs] init
        = init @ concat (map (\<lambda>i. if contains_atom (subs ! i) other
                         then map ((#) (int i)) (get_paths_to_atom (subs ! i) other) else [])
                   [0..<length subs])" for init
    by (rule fold_append_acc) auto
  show ?thesis
    by (simp only: get_paths_to_atom.simps [of sa ats subs] Let_def 1 2 append_Nil)
qed

lemma in_get_paths_to_atom:
  "a \<in> set (get_paths_to_atom (AEGraph sa ats subs) other) \<longleftrightarrow>
     (\<exists>i < length ats. ats ! i = other \<and> length ats + length subs > 1
                        \<and> a = [int i + int (length subs)])
     \<or> (\<exists>i < length subs. contains_atom (subs ! i) other
           \<and> (\<exists>r \<in> set (get_paths_to_atom (subs ! i) other). a = int i # r))"
  unfolding get_paths_to_atom_concat by (auto split: if_splits)

lemma possible_deiterations_concat:
  "possible_deiterations g =
     concat (map (\<lambda>i. concat (map (\<lambda>j. if i \<noteq> j
                          then map ((#) (int j)) (get_paths_to_graph (subgraphs g ! j) (subgraphs g ! i))
                          else [])
                        [0..<num_subgraphs g]))
                 [0..<num_subgraphs g])
     @ concat (map (\<lambda>i. concat (map (\<lambda>j.
                          map ((#) (int j)) (get_paths_to_atom (subgraphs g ! j) (atoms g ! i)))
                        [0..<num_subgraphs g]))
                 [0..<num_atoms g])"
proof -
  have inner1: "fold (\<lambda>j road. if i \<noteq> j
                   then road @ map ((#) (int j)) (get_paths_to_graph (subgraphs g ! j) (subgraphs g ! i))
                   else road) [0..<num_subgraphs g] road
        = road @ concat (map (\<lambda>j. if i \<noteq> j
                          then map ((#) (int j)) (get_paths_to_graph (subgraphs g ! j) (subgraphs g ! i))
                          else []) [0..<num_subgraphs g])" for i road
    by (rule fold_append_acc) auto
  have inner2: "fold (\<lambda>j road. road @ map ((#) (int j)) (get_paths_to_atom (subgraphs g ! j) (atoms g ! i)))
                  [0..<num_subgraphs g] road
        = road @ concat (map (\<lambda>j. map ((#) (int j)) (get_paths_to_atom (subgraphs g ! j) (atoms g ! i)))
                          [0..<num_subgraphs g])" for i road
    by (rule fold_append_acc) auto
  have outer: "fold (\<lambda>i road. road @ f i) xs init = init @ concat (map f xs)"
    for f :: "nat \<Rightarrow> int list list" and xs init
    by (rule fold_append_acc) auto
  show ?thesis
    by (simp only: possible_deiterations_def Let_def inner1 inner2 outer append_Nil)
qed

lemma in_possible_deiterations:
  "a \<in> set (possible_deiterations g) \<longleftrightarrow>
     (\<exists>i < num_subgraphs g. \<exists>j < num_subgraphs g. i \<noteq> j
        \<and> (\<exists>r \<in> set (get_paths_to_graph (subgraphs g ! j) (subgraphs g ! i)). a = int j # r))
     \<or> (\<exists>i < num_atoms g. \<exists>j < num_subgraphs g.
          \<exists>r \<in> set (get_paths_to_atom (subgraphs g ! j) (atoms g ! i)). a = int j # r)"
  unfolding possible_deiterations_concat
  by (simp only: set_append Un_iff in_concat_map_upt) (auto split: if_splits, blast)

section \<open>Erasure and deiteration remove in the same way\<close>

lemma deiterate_helper_eq_erase_helper: "deiterate_helper a g = erase_helper a g"
  by (induction a g rule: erase_helper.induct) (simp_all split: option.splits sum.splits)

text \<open>
  Claim C8. For every graph \<open>g\<close> and every address \<open>a\<close>, \<open>deiterate\<close> returns what \<open>erase\<close>
  returns: the same graph where the address can be followed, the same error where an
  index is out of range. Both remove in this way: at an address of one index, the atom at
  the index minus the number of subgraphs when the index is not below that number, the
  subgraph at the index otherwise; at a longer address, they descend into the subgraph at
  the first index and remove there.
\<close>

theorem deiterate_same_as_erase:
  "deiterate g a = erase g a
   \<and> erase g [i] =
       (if int (num_subgraphs g) - i \<le> 0 then
          (if i - int (num_subgraphs g) < int (num_atoms g)
           then Inr (AEGraph (is_SA g) (remove_nth (nat (i - int (num_subgraphs g))) (atoms g))
                       (subgraphs g))
           else Inl OutOfRange)
        else
          (if 0 \<le> i then Inr (AEGraph (is_SA g) (atoms g) (remove_nth (nat i) (subgraphs g)))
           else Inl OutOfRange))
   \<and> erase g (i # j # p) =
       (case nth_opt (subgraphs g) i of
          None \<Rightarrow> Inl OutOfRange
        | Some sub \<Rightarrow>
            (case erase sub (j # p) of
               Inl e \<Rightarrow> Inl e
             | Inr sub' \<Rightarrow> Inr (AEGraph (is_SA g) (atoms g) ((subgraphs g)[nat i := sub']))))"
  unfolding deiterate_def erase_def by (simp add: deiterate_helper_eq_erase_helper)

section \<open>The empty cut\<close>

text \<open>
  Claim C5 has the graphs constructed from \<open>"[]"\<close> and \<open>"()"\<close> without atoms and subgraphs,
  of size 0. The constructor does otherwise: the text between the delimiters is empty,
  \<open>split_level\<close> returns the one element \<open>""\<close> for it, and that element is stored as an atom.
  The graphs constructed from \<open>"[]"\<close> and \<open>"()"\<close> have one atom, the empty string, and size
  1, and the child of the graph constructed from \<open>"[[]]"\<close> is such a node. The cut without
  atoms and subgraphs, of size 0, renders as the same text \<open>"[]"\<close>.
\<close>

theorem parse_empty_cut_has_size_one:
  "parse ''[]'' = Inr (AEGraph False [''''] [])
   \<and> parse ''()'' = Inr (AEGraph True [''''] [])
   \<and> parse ''[[]]'' = Inr (AEGraph False [] [AEGraph False [''''] []])
   \<and> num_atoms (AEGraph False [''''] []) = 1
   \<and> size_graph (AEGraph False [''''] []) = 1
   \<and> size_graph (AEGraph True [''''] []) = 1
   \<and> repr (AEGraph False [''''] []) = ''[]''
   \<and> repr (AEGraph False [] []) = ''[]''
   \<and> size_graph (AEGraph False [] []) = 0"
  by code_simp

section \<open>The appliers on enumerated addresses\<close>

declare possible_double_cuts.simps [simp del] possible_erasures.simps [simp del]
  get_paths_to_graph.simps [simp del] get_paths_to_atom.simps [simp del]

lemma nth_opt_int [simp]: "i < length xs \<Longrightarrow> nth_opt xs (int i) = Some (xs ! i)"
  by (simp add: nth_opt_def)

lemma possible_double_cuts_nonempty: "r \<in> set (possible_double_cuts g) \<Longrightarrow> r \<noteq> []"
  by (cases g) (auto simp: in_possible_double_cuts)

lemma possible_erasures_nonempty: "r \<in> set (possible_erasures level g) \<Longrightarrow> r \<noteq> []"
  by (cases g) (auto simp: in_possible_erasures)

lemma get_paths_to_graph_nonempty: "r \<in> set (get_paths_to_graph g other) \<Longrightarrow> r \<noteq> []"
  by (cases g) (auto simp: in_get_paths_to_graph split: if_splits)

lemma get_paths_to_atom_nonempty: "r \<in> set (get_paths_to_atom g other) \<Longrightarrow> r \<noteq> []"
  by (cases g) (auto simp: in_get_paths_to_atom)

lemma double_cut_helper_descend:
  "rest \<noteq> [] \<Longrightarrow> i < length (subgraphs node) \<Longrightarrow>
   double_cut_helper rest (subgraphs node ! i) = Inr sub' \<Longrightarrow>
   double_cut_helper (int i # rest) node =
     Inr (AEGraph (is_SA node) (atoms node) ((subgraphs node)[i := sub']))"
  by (cases rest) simp_all

lemma erase_helper_descend:
  "rest \<noteq> [] \<Longrightarrow> i < length (subgraphs node) \<Longrightarrow>
   erase_helper rest (subgraphs node ! i) = Inr sub' \<Longrightarrow>
   erase_helper (int i # rest) node =
     Inr (AEGraph (is_SA node) (atoms node) ((subgraphs node)[i := sub']))"
  by (cases rest) simp_all

lemma double_cut_helper_total:
  "a \<in> set (possible_double_cuts g) \<Longrightarrow> \<exists>g'. double_cut_helper a g = Inr g'"
proof (induction g arbitrary: a)
  case (AEGraph sa ats subs)
  from AEGraph.prems obtain i where i: "i < length subs"
    and a: "(a = [int i] \<and> num_subgraphs (subs ! i) = 1 \<and> num_atoms (subs ! i) = 0)
            \<or> (\<exists>r \<in> set (possible_double_cuts (subs ! i)). a = int i # r)"
    unfolding in_possible_double_cuts by blast
  from a show ?case
  proof
    assume "a = [int i] \<and> num_subgraphs (subs ! i) = 1 \<and> num_atoms (subs ! i) = 0"
    then show ?thesis using i
      by (cases "subgraphs (subs ! i)") (simp_all add: num_subgraphs_def)
  next
    assume "\<exists>r \<in> set (possible_double_cuts (subs ! i)). a = int i # r"
    then obtain r where r: "r \<in> set (possible_double_cuts (subs ! i))" and ar: "a = int i # r"
      by blast
    from i have "subs ! i \<in> set subs" by simp
    from AEGraph.IH [OF this r] obtain s' where "double_cut_helper r (subs ! i) = Inr s'" by blast
    then show ?thesis
      using double_cut_helper_descend [of r i "AEGraph sa ats subs" s'] i
        possible_double_cuts_nonempty [OF r] ar by simp
  qed
qed

lemma erase_helper_total:
  "a \<in> set (possible_erasures level g) \<Longrightarrow> \<exists>g'. erase_helper a g = Inr g'"
proof (induction g arbitrary: a level)
  case (AEGraph sa ats subs)
  from AEGraph.prems obtain i where i: "i < length subs + length ats"
    and a: "a = [int i]
            \<or> (i < length subs \<and> (\<exists>r \<in> set (possible_erasures (level + 1) (subs ! i)). a = int i # r))"
    unfolding in_possible_erasures by blast
  from a show ?case
  proof
    assume "a = [int i]"
    then show ?thesis using i by (simp add: num_subgraphs_def num_atoms_def)
  next
    assume "i < length subs \<and> (\<exists>r \<in> set (possible_erasures (level + 1) (subs ! i)). a = int i # r)"
    then obtain r where il: "i < length subs"
      and r: "r \<in> set (possible_erasures (level + 1) (subs ! i))" and ar: "a = int i # r"
      by blast
    from il have "subs ! i \<in> set subs" by simp
    from AEGraph.IH [OF this r] obtain s' where "erase_helper r (subs ! i) = Inr s'" by blast
    then show ?thesis
      using erase_helper_descend [of r i "AEGraph sa ats subs" s'] il
        possible_erasures_nonempty [OF r] ar by simp
  qed
qed

lemma erase_helper_total_graph_paths:
  "a \<in> set (get_paths_to_graph g other) \<Longrightarrow> \<exists>g'. erase_helper a g = Inr g'"
proof (induction g arbitrary: a)
  case (AEGraph sa ats subs)
  from AEGraph.prems obtain i where i: "i < length subs"
    and a: "a = [int i] \<or> (\<exists>r \<in> set (get_paths_to_graph (subs ! i) other). a = int i # r)"
    unfolding in_get_paths_to_graph by (auto split: if_splits)
  from a show ?case
  proof
    assume "a = [int i]"
    then show ?thesis using i by (simp add: num_subgraphs_def num_atoms_def)
  next
    assume "\<exists>r \<in> set (get_paths_to_graph (subs ! i) other). a = int i # r"
    then obtain r where r: "r \<in> set (get_paths_to_graph (subs ! i) other)" and ar: "a = int i # r"
      by blast
    from i have "subs ! i \<in> set subs" by simp
    from AEGraph.IH [OF this r] obtain s' where "erase_helper r (subs ! i) = Inr s'" by blast
    then show ?thesis
      using erase_helper_descend [of r i "AEGraph sa ats subs" s'] i
        get_paths_to_graph_nonempty [OF r] ar by simp
  qed
qed

lemma erase_helper_total_atom_paths:
  "a \<in> set (get_paths_to_atom g other) \<Longrightarrow> \<exists>g'. erase_helper a g = Inr g'"
proof (induction g arbitrary: a)
  case (AEGraph sa ats subs)
  from AEGraph.prems consider
      i where "i < length ats" "a = [int i + int (length subs)]"
    | i r where "i < length subs" "r \<in> set (get_paths_to_atom (subs ! i) other)" "a = int i # r"
    unfolding in_get_paths_to_atom by blast
  then show ?case
  proof cases
    case 1
    then show ?thesis by (simp add: num_subgraphs_def num_atoms_def)
  next
    case 2
    from 2(1) have "subs ! i \<in> set subs" by simp
    from AEGraph.IH [OF this 2(2)] obtain s' where "erase_helper r (subs ! i) = Inr s'" by blast
    then show ?thesis
      using erase_helper_descend [of r i "AEGraph sa ats subs" s'] 2
        get_paths_to_atom_nonempty [OF 2(2)] by simp
  qed
qed

lemma erase_helper_total_deiterations:
  "a \<in> set (possible_deiterations g) \<Longrightarrow> \<exists>g'. erase_helper a g = Inr g'"
proof -
  assume "a \<in> set (possible_deiterations g)"
  then consider
      i j r where "j < num_subgraphs g"
        "r \<in> set (get_paths_to_graph (subgraphs g ! j) (subgraphs g ! i))" "a = int j # r"
    | i j r where "j < num_subgraphs g"
        "r \<in> set (get_paths_to_atom (subgraphs g ! j) (atoms g ! i))" "a = int j # r"
    unfolding in_possible_deiterations by blast
  then show ?thesis
  proof cases
    case 1
    from erase_helper_total_graph_paths [OF 1(2)]
    obtain s' where "erase_helper r (subgraphs g ! j) = Inr s'" by blast
    then show ?thesis
      using erase_helper_descend [of r j g s'] 1 get_paths_to_graph_nonempty [OF 1(2)]
      by (simp add: num_subgraphs_def)
  next
    case 2
    from erase_helper_total_atom_paths [OF 2(2)]
    obtain s' where "erase_helper r (subgraphs g ! j) = Inr s'" by blast
    then show ?thesis
      using erase_helper_descend [of r j g s'] 2 get_paths_to_atom_nonempty [OF 2(2)]
      by (simp add: num_subgraphs_def)
  qed
qed

text \<open>
  Claim C1. On every address that \<open>possible_double_cuts\<close>, \<open>possible_erasures\<close> (from any
  level) or \<open>possible_deiterations\<close> returns for a graph, the paired applier
  \<open>double_cut\<close>, \<open>erase\<close> or \<open>deiterate\<close> returns a graph: no index it uses to descend or
  to delete is out of range, whatever the length of the address.
\<close>

theorem appliers_total_on_enumerated_addresses:
  "(\<forall>a \<in> set (possible_double_cuts g). \<exists>g'. double_cut g a = Inr g')
   \<and> (\<forall>level. \<forall>a \<in> set (possible_erasures level g). \<exists>g'. erase g a = Inr g')
   \<and> (\<forall>a \<in> set (possible_deiterations g). \<exists>g'. deiterate g a = Inr g')"
  unfolding double_cut_def erase_def deiterate_def deiterate_helper_eq_erase_helper
  using double_cut_helper_total erase_helper_total erase_helper_total_deiterations by blast

theorem appliers_total_on_enumerated_addresses_witness:
  "(\<exists>g'. double_cut (AEGraph True [''A'']
            [AEGraph False [''A'', ''B''] [AEGraph False [] [AEGraph False [''A'', ''C''] []]]])
          [0, 0] = Inr g')
   \<and> (\<exists>g'. erase (AEGraph True [''A'']
            [AEGraph False [''A'', ''B''] [AEGraph False [] [AEGraph False [''A'', ''C''] []]]])
          [0, 0, 0, 1] = Inr g')
   \<and> (\<exists>g'. deiterate (AEGraph True [''A'']
            [AEGraph False [''A'', ''B''] [AEGraph False [] [AEGraph False [''A'', ''C''] []]]])
          [0, 0, 0, 0] = Inr g')"
proof -
  let ?g = "AEGraph True [''A'']
            [AEGraph False [''A'', ''B''] [AEGraph False [] [AEGraph False [''A'', ''C''] []]]]"
  have 1: "[0, 0] \<in> set (possible_double_cuts ?g)" by code_simp
  have 2: "[0, 0, 0, 1] \<in> set (possible_erasures 0 ?g)" by code_simp
  have 3: "[0, 0, 0, 0] \<in> set (possible_deiterations ?g)" by code_simp
  show ?thesis
    using appliers_total_on_enumerated_addresses [of ?g] 1 2 3 by blast
qed

section \<open>Removing a double cut\<close>

lemma double_cut_helper_Cons:
  "rest \<noteq> [] \<Longrightarrow> double_cut_helper (index # rest) node =
     (case nth_opt (subgraphs node) index of
        None \<Rightarrow> Inl OutOfRange
      | Some sub \<Rightarrow>
          (case double_cut_helper rest sub of
             Inl e \<Rightarrow> Inl e
           | Inr sub' \<Rightarrow>
               Inr (AEGraph (is_SA node) (atoms node) ((subgraphs node)[nat index := sub']))))"
  by (cases rest) auto

lemma nth_opt_Some: "nth_opt xs i = Some x \<Longrightarrow> 0 \<le> i \<and> nat i < length xs \<and> x = xs ! nat i"
  by (auto simp: nth_opt_def split: if_splits)

lemma remove_nth_append: "i < length xs \<Longrightarrow> remove_nth i (xs @ ys) = remove_nth i xs @ ys"
  by (simp add: remove_nth_def)

lemma double_cut_helper_splices:
  "node_at g p = Some parent \<Longrightarrow> nth_opt (subgraphs parent) i = Some outer \<Longrightarrow>
   subgraphs outer = [inner] \<Longrightarrow>
   double_cut_helper (p @ [i]) g =
     Inr (with_node_at g p
            (AEGraph (is_SA parent) (atoms parent @ atoms inner)
               (remove_nth (nat i) (subgraphs parent) @ subgraphs inner)))"
proof (induction p arbitrary: g)
  case Nil
  then show ?case using nth_opt_Some [of "subgraphs parent" i outer]
    by (simp add: remove_nth_append)
next
  case (Cons j p)
  from Cons.prems(1) obtain c where c: "nth_opt (subgraphs g) j = Some c"
    and at: "node_at c p = Some parent"
    by (auto split: option.splits)
  from c have cj: "c = subgraphs g ! nat j" using nth_opt_Some [OF c] by simp
  show ?case
    using Cons.IH [OF at Cons.prems(2) Cons.prems(3)] c cj
    by (simp add: double_cut_helper_Cons)
qed

text \<open>
  Claim C2. When the path \<open>p\<close> leads to a node \<open>parent\<close> of \<open>g\<close> and the index \<open>i\<close> names a
  subgraph \<open>outer\<close> of \<open>parent\<close> with exactly one subgraph \<open>inner\<close> and no atom, \<open>double_cut\<close>
  at the address \<open>p @ [i]\<close> returns \<open>g\<close> with \<open>parent\<close> changed only: \<open>outer\<close> is removed
  from its subgraphs, the subgraphs of \<open>inner\<close> follow the remaining ones, and the atoms of
  \<open>inner\<close> follow the atoms of \<open>parent\<close>. For the text \<open>"([[C]])"\<close>, \<open>possible_double_cuts\<close>
  returns the one address \<open>{0}\<close>, and \<open>double_cut\<close> there returns a graph equal (by
  \<open>operator==\<close>) to the graph constructed from \<open>"(C)"\<close>.
\<close>

theorem double_cut_splices_grandchild:
  "(node_at g p = Some parent \<and> nth_opt (subgraphs parent) i = Some outer
      \<and> num_subgraphs outer = 1 \<and> num_atoms outer = 0
    \<longrightarrow> (\<exists>inner. subgraphs outer = [inner]
          \<and> double_cut g (p @ [i]) =
              Inr (with_node_at g p
                     (AEGraph (is_SA parent) (atoms parent @ atoms inner)
                        (remove_nth (nat i) (subgraphs parent) @ subgraphs inner)))))
   \<and> (\<exists>g0 g1 g2. parse ''([[C]])'' = Inr g0 \<and> possible_double_cuts g0 = [[0]]
         \<and> double_cut g0 [0] = Inr g1 \<and> parse ''(C)'' = Inr g2 \<and> graph_eq g1 g2)"
proof
  show "node_at g p = Some parent \<and> nth_opt (subgraphs parent) i = Some outer
      \<and> num_subgraphs outer = 1 \<and> num_atoms outer = 0
    \<longrightarrow> (\<exists>inner. subgraphs outer = [inner]
          \<and> double_cut g (p @ [i]) =
              Inr (with_node_at g p
                     (AEGraph (is_SA parent) (atoms parent @ atoms inner)
                        (remove_nth (nat i) (subgraphs parent) @ subgraphs inner))))"
  proof
    assume h: "node_at g p = Some parent \<and> nth_opt (subgraphs parent) i = Some outer
      \<and> num_subgraphs outer = 1 \<and> num_atoms outer = 0"
    then obtain inner where inner: "subgraphs outer = [inner]"
      by (cases "subgraphs outer") (auto simp: num_subgraphs_def)
    with h show "\<exists>inner. subgraphs outer = [inner]
          \<and> double_cut g (p @ [i]) =
              Inr (with_node_at g p
                     (AEGraph (is_SA parent) (atoms parent @ atoms inner)
                        (remove_nth (nat i) (subgraphs parent) @ subgraphs inner)))"
      using double_cut_helper_splices [of g p parent i outer inner]
      by (simp add: double_cut_def)
  qed
next
  have 1: "parse ''([[C]])'' = Inr (AEGraph True [] [AEGraph False [] [AEGraph False [''C''] []]])"
    by code_simp
  have 2: "possible_double_cuts (AEGraph True [] [AEGraph False [] [AEGraph False [''C''] []]]) = [[0]]"
    by code_simp
  have 3: "double_cut (AEGraph True [] [AEGraph False [] [AEGraph False [''C''] []]]) [0]
           = Inr (AEGraph True [''C''] [])"
    by code_simp
  have 4: "parse ''(C)'' = Inr (AEGraph True [''C''] [])"
    by code_simp
  show "\<exists>g0 g1 g2. parse ''([[C]])'' = Inr g0 \<and> possible_double_cuts g0 = [[0]]
         \<and> double_cut g0 [0] = Inr g1 \<and> parse ''(C)'' = Inr g2 \<and> graph_eq g1 g2"
    using 1 2 3 4 by (simp add: graph_eq_def)
qed

theorem double_cut_splices_grandchild_witness:
  "double_cut (AEGraph True [''A''] [AEGraph False [''B'']
        [AEGraph False [] [AEGraph False [''C''] [AEGraph False [''D''] []]], AEGraph False [''E''] []]])
      [0, 0]
    = Inr (AEGraph True [''A''] [AEGraph False [''B'', ''C'']
        [AEGraph False [''E''] [], AEGraph False [''D''] []]])"
proof -
  let ?inner = "AEGraph False [''C''] [AEGraph False [''D''] []]"
  let ?outer = "AEGraph False [] [?inner]"
  let ?parent = "AEGraph False [''B''] [?outer, AEGraph False [''E''] []]"
  let ?g = "AEGraph True [''A''] [?parent]"
  have h: "node_at ?g [0] = Some ?parent \<and> nth_opt (subgraphs ?parent) 0 = Some ?outer
      \<and> num_subgraphs ?outer = 1 \<and> num_atoms ?outer = 0"
    by (simp add: nth_opt_def num_subgraphs_def num_atoms_def)
  from double_cut_splices_grandchild [of ?g "[0]" ?parent 0 ?outer] h
  show ?thesis by (simp add: remove_nth_def)
qed

section \<open>Where erasure is offered\<close>

lemma node_at_Cons_int:
  "i < length (subgraphs g) \<Longrightarrow> node_at g (int i # p) = node_at (subgraphs g ! i) p"
  by simp

lemma possible_erasures_sound:
  "a \<in> set (possible_erasures level g) \<Longrightarrow>
   \<exists>node. a \<noteq> [] \<and> node_at g (butlast a) = Some node
          \<and> odd (level + int (length (butlast a)))
          \<and> 0 \<le> last a \<and> last a < int (size_graph node)
          \<and> (level + int (length (butlast a)) = - 1 \<or> size_graph node \<noteq> 1)"
proof (induction g arbitrary: a level)
  case (AEGraph sa ats subs)
  from AEGraph.prems consider
      i where "i < length subs + length ats" "a = [int i]" "odd level"
              "level = - 1 \<or> length subs + length ats \<noteq> 1"
    | i r where "i < length subs" "r \<in> set (possible_erasures (level + 1) (subs ! i))"
                "a = int i # r"
    unfolding in_possible_erasures by blast
  then show ?case
  proof cases
    case 1
    then show ?thesis
      by (auto simp: size_graph_def num_atoms_def num_subgraphs_def)
  next
    case 2
    from 2(1) have "subs ! i \<in> set subs" by simp
    from AEGraph.IH [OF this 2(2)] obtain node where
      n: "r \<noteq> []" "node_at (subs ! i) (butlast r) = Some node"
         "odd (level + 1 + int (length (butlast r)))"
         "0 \<le> last r" "last r < int (size_graph node)"
         "level + 1 + int (length (butlast r)) = - 1 \<or> size_graph node \<noteq> 1"
      by blast
    have "node_at (AEGraph sa ats subs) (butlast a) = Some node"
      using n(1,2) 2(1,3) by simp
    moreover have "level + int (length (butlast a)) = level + 1 + int (length (butlast r))"
      using n(1) 2(3) by (cases r) simp_all
    moreover have "last a = last r" using n(1) 2(3) by simp
    moreover have "a \<noteq> []" using 2(3) by simp
    ultimately show ?thesis using n(3-6) by metis
  qed
qed

text \<open>
  Claim C6. Every address that \<open>possible_erasures\<close>, started at level 0, returns for a
  graph names an element of a node at an odd nesting level (the number of cuts descended
  from the root, which is at level 0): the address descends through an odd number of
  subgraphs to a node and its last index lies in the index space of that node. That node
  does not have the element as its sole content: it is neither a node with one subgraph
  and no atom nor a node with one atom and no subgraph.
\<close>

theorem possible_erasures_odd_level_not_sole:
  "\<forall>a \<in> set (possible_erasures 0 g).
     \<exists>node. a \<noteq> [] \<and> node_at g (butlast a) = Some node
            \<and> odd (length (butlast a))
            \<and> 0 \<le> last a \<and> last a < int (size_graph node)
            \<and> \<not> (num_subgraphs node = 1 \<and> num_atoms node = 0)
            \<and> \<not> (num_subgraphs node = 0 \<and> num_atoms node = 1)"
proof
  fix a assume "a \<in> set (possible_erasures 0 g)"
  from possible_erasures_sound [OF this] obtain node where
    n: "a \<noteq> []" "node_at g (butlast a) = Some node" "odd (0 + int (length (butlast a)))"
       "0 \<le> last a" "last a < int (size_graph node)"
       "0 + int (length (butlast a)) = - 1 \<or> size_graph node \<noteq> 1"
    by blast
  from n(6) have "size_graph node \<noteq> 1" by simp
  then have "\<not> (num_subgraphs node = 1 \<and> num_atoms node = 0)
             \<and> \<not> (num_subgraphs node = 0 \<and> num_atoms node = 1)"
    by (auto simp: size_graph_def)
  with n show "\<exists>node. a \<noteq> [] \<and> node_at g (butlast a) = Some node
            \<and> odd (length (butlast a))
            \<and> 0 \<le> last a \<and> last a < int (size_graph node)
            \<and> \<not> (num_subgraphs node = 1 \<and> num_atoms node = 0)
            \<and> \<not> (num_subgraphs node = 0 \<and> num_atoms node = 1)"
    by auto
qed

theorem possible_erasures_odd_level_not_sole_witness:
  "\<exists>node. node_at (AEGraph True [''A'']
              [AEGraph False [''A'', ''B''] [AEGraph False [] [AEGraph False [''A'', ''C''] []]]])
            [0, 0, 0] = Some node
          \<and> (1::int) < int (size_graph node)
          \<and> \<not> (num_subgraphs node = 1 \<and> num_atoms node = 0)
          \<and> \<not> (num_subgraphs node = 0 \<and> num_atoms node = 1)"
proof -
  let ?g = "AEGraph True [''A'']
            [AEGraph False [''A'', ''B''] [AEGraph False [] [AEGraph False [''A'', ''C''] []]]]"
  have 1: "[0, 0, 0, 1] \<in> set (possible_erasures 0 ?g)" by code_simp
  from possible_erasures_odd_level_not_sole [of ?g] 1
  have "\<exists>node. [0, 0, 0, 1] \<noteq> ([] :: int list) \<and> node_at ?g (butlast [0, 0, 0, 1]) = Some node
            \<and> odd (length (butlast [0, 0, 0, 1 :: int]))
            \<and> 0 \<le> last [0, 0, 0, 1 :: int] \<and> last [0, 0, 0, 1 :: int] < int (size_graph node)
            \<and> \<not> (num_subgraphs node = 1 \<and> num_atoms node = 0)
            \<and> \<not> (num_subgraphs node = 0 \<and> num_atoms node = 1)"
    by blast
  then show ?thesis by simp
qed

section \<open>What deiteration is offered\<close>

lemma resolve_Cons_int:
  "r \<noteq> [] \<Longrightarrow> i < length (subgraphs g) \<Longrightarrow> resolve g (int i # r) = resolve (subgraphs g ! i) r"
  by (cases r) auto

lemma get_paths_to_graph_resolve:
  "r \<in> set (get_paths_to_graph h t) \<Longrightarrow> \<exists>c. resolve h r = Some (Child c) \<and> graph_eq c t"
proof (induction h arbitrary: r)
  case (AEGraph sa ats subs)
  from AEGraph.prems consider
      i where "i < length subs" "graph_eq (subs ! i) t" "r = [int i]"
    | i r' where "i < length subs" "r' \<in> set (get_paths_to_graph (subs ! i) t)" "r = int i # r'"
    unfolding in_get_paths_to_graph by (auto split: if_splits)
  then show ?case
  proof cases
    case 1
    then show ?thesis by (simp add: num_subgraphs_def)
  next
    case 2
    from 2(1) have "subs ! i \<in> set subs" by simp
    from AEGraph.IH [OF this 2(2)] show ?thesis
      using resolve_Cons_int [of r' i "AEGraph sa ats subs"] get_paths_to_graph_nonempty [OF 2(2)] 2(1,3)
      by simp
  qed
qed

lemma get_paths_to_atom_resolve:
  "r \<in> set (get_paths_to_atom h s) \<Longrightarrow> resolve h r = Some (Atom s)"
proof (induction h arbitrary: r)
  case (AEGraph sa ats subs)
  from AEGraph.prems consider
      i where "i < length ats" "ats ! i = s" "r = [int i + int (length subs)]"
    | i r' where "i < length subs" "r' \<in> set (get_paths_to_atom (subs ! i) s)" "r = int i # r'"
    unfolding in_get_paths_to_atom by blast
  then show ?case
  proof cases
    case 1
    then show ?thesis by (simp add: num_subgraphs_def num_atoms_def)
  next
    case 2
    from 2(1) have "subs ! i \<in> set subs" by simp
    from AEGraph.IH [OF this 2(2)] show ?thesis
      using resolve_Cons_int [of r' i "AEGraph sa ats subs"] get_paths_to_atom_nonempty [OF 2(2)] 2(1,3)
      by simp
  qed
qed

text \<open>
  Claim C7. Every address that \<open>possible_deiterations\<close> returns for a graph \<open>g\<close> has at
  least two indices and names either a subgraph, inside a subgraph of \<open>g\<close>, that is equal
  (by \<open>operator==\<close>) to another subgraph of \<open>g\<close>, or an atom, inside a subgraph of \<open>g\<close>, that
  is an atom of \<open>g\<close>.
\<close>

theorem possible_deiterations_equal_to_dominator:
  "\<forall>a \<in> set (possible_deiterations g).
     2 \<le> length a
     \<and> ((\<exists>c i. resolve g a = Some (Child c) \<and> i < num_subgraphs g \<and> int i \<noteq> hd a
               \<and> graph_eq c (subgraphs g ! i))
        \<or> (\<exists>s. resolve g a = Some (Atom s) \<and> s \<in> set (atoms g)))"
proof
  fix a assume "a \<in> set (possible_deiterations g)"
  then consider
      i j r where "i < num_subgraphs g" "j < num_subgraphs g" "i \<noteq> j"
        "r \<in> set (get_paths_to_graph (subgraphs g ! j) (subgraphs g ! i))" "a = int j # r"
    | i j r where "i < num_atoms g" "j < num_subgraphs g"
        "r \<in> set (get_paths_to_atom (subgraphs g ! j) (atoms g ! i))" "a = int j # r"
    unfolding in_possible_deiterations by blast
  then show "2 \<le> length a
     \<and> ((\<exists>c i. resolve g a = Some (Child c) \<and> i < num_subgraphs g \<and> int i \<noteq> hd a
               \<and> graph_eq c (subgraphs g ! i))
        \<or> (\<exists>s. resolve g a = Some (Atom s) \<and> s \<in> set (atoms g)))"
  proof cases
    case 1
    from get_paths_to_graph_resolve [OF 1(4)] obtain c where
      c: "resolve (subgraphs g ! j) r = Some (Child c)" "graph_eq c (subgraphs g ! i)" by blast
    have ne: "r \<noteq> []" by (rule get_paths_to_graph_nonempty [OF 1(4)])
    have "resolve g a = Some (Child c)"
      using resolve_Cons_int [OF ne, of j g] 1(2,5) c(1) by (simp add: num_subgraphs_def)
    moreover have "2 \<le> length a" using ne 1(5) by (cases r) simp_all
    moreover have "int i \<noteq> hd a" using 1(3,5) by simp
    ultimately show ?thesis using 1(1) c(2) by blast
  next
    case 2
    have r: "resolve (subgraphs g ! j) r = Some (Atom (atoms g ! i))"
      by (rule get_paths_to_atom_resolve [OF 2(3)])
    have ne: "r \<noteq> []" by (rule get_paths_to_atom_nonempty [OF 2(3)])
    have "resolve g a = Some (Atom (atoms g ! i))"
      using resolve_Cons_int [OF ne, of j g] 2(2,4) r by (simp add: num_subgraphs_def)
    moreover have "2 \<le> length a" using ne 2(4) by (cases r) simp_all
    moreover have "atoms g ! i \<in> set (atoms g)" using 2(1) by (simp add: num_atoms_def)
    ultimately show ?thesis by blast
  qed
qed

theorem possible_deiterations_equal_to_dominator_witness:
  "2 \<le> length [1, 0, 0 :: int]
   \<and> ((\<exists>c i. resolve (AEGraph True [''A'']
                 [AEGraph False [''A'', ''C''] [],
                  AEGraph False [''A'', ''B'']
                    [AEGraph False [''D''] [AEGraph False [''A'', ''C''] []]]]) [1, 0, 0]
               = Some (Child c)
             \<and> i < num_subgraphs (AEGraph True [''A'']
                 [AEGraph False [''A'', ''C''] [],
                  AEGraph False [''A'', ''B'']
                    [AEGraph False [''D''] [AEGraph False [''A'', ''C''] []]]])
             \<and> int i \<noteq> hd [1, 0, 0]
             \<and> graph_eq c (subgraphs (AEGraph True [''A'']
                 [AEGraph False [''A'', ''C''] [],
                  AEGraph False [''A'', ''B'']
                    [AEGraph False [''D''] [AEGraph False [''A'', ''C''] []]]]) ! i))
      \<or> (\<exists>s. resolve (AEGraph True [''A'']
                 [AEGraph False [''A'', ''C''] [],
                  AEGraph False [''A'', ''B'']
                    [AEGraph False [''D''] [AEGraph False [''A'', ''C''] []]]]) [1, 0, 0]
               = Some (Atom s)
             \<and> s \<in> set (atoms (AEGraph True [''A'']
                 [AEGraph False [''A'', ''C''] [],
                  AEGraph False [''A'', ''B'']
                    [AEGraph False [''D''] [AEGraph False [''A'', ''C''] []]]]))))"
proof -
  let ?g = "AEGraph True [''A'']
                 [AEGraph False [''A'', ''C''] [],
                  AEGraph False [''A'', ''B'']
                    [AEGraph False [''D''] [AEGraph False [''A'', ''C''] []]]]"
  have 1: "[1, 0, 0] \<in> set (possible_deiterations ?g)" by code_simp
  from possible_deiterations_equal_to_dominator [of ?g] 1 show ?thesis by blast
qed

section \<open>Paths to a subgraph do not nest\<close>

lemma get_paths_to_graph_prefix_free:
  "p \<in> set (get_paths_to_graph g t) \<Longrightarrow> q \<in> set (get_paths_to_graph g t) \<Longrightarrow> \<not> strict_prefix p q"
proof (induction g arbitrary: p q)
  case (AEGraph sa ats subs)
  let ?m = "\<lambda>i. graph_eq (subs ! i) t \<and> length ats + length subs > 1"
  from AEGraph.prems(1) obtain i where i: "i < length subs"
    and p: "if ?m i then p = [int i]
            else \<exists>r \<in> set (get_paths_to_graph (subs ! i) t). p = int i # r"
    unfolding in_get_paths_to_graph by blast
  from AEGraph.prems(2) obtain j where j: "j < length subs"
    and q: "if ?m j then q = [int j]
            else \<exists>r \<in> set (get_paths_to_graph (subs ! j) t). q = int j # r"
    unfolding in_get_paths_to_graph by blast
  show ?case
  proof
    assume sp: "strict_prefix p q"
    have hp: "hd p = int i" "p \<noteq> []" using p by (auto split: if_splits)
    have hq: "hd q = int j" "q \<noteq> []" using q by (auto split: if_splits)
    from sp hp hq have "hd p = hd q"
      by (cases p; cases q) (auto simp: strict_prefix_def)
    with hp hq have ij: "i = j" by simp
    show False
    proof (cases "?m i")
      case True
      with p q ij have "p = q" by simp
      with sp show False by simp
    next
      case False
      with p obtain r where r: "r \<in> set (get_paths_to_graph (subs ! i) t)" "p = int i # r" by auto
      from False q ij obtain r' where r': "r' \<in> set (get_paths_to_graph (subs ! i) t)" "q = int i # r'"
        by auto
      from sp r(2) r'(2) have "strict_prefix r r'" by simp
      moreover from i have "subs ! i \<in> set subs" by simp
      ultimately show False using AEGraph.IH r(1) r'(1) by blast
    qed
  qed
qed

text \<open>
  Claim C10. No address that \<open>get_paths_to\<close> returns for a subgraph \<open>t\<close> is a proper prefix
  of another one it returns: no reported occurrence lies inside another reported one. For
  a subgraph at index \<open>i\<close> of \<open>g\<close> that is equal to \<open>t\<close>: when \<open>g\<close> has size greater than 1, the
  address \<open>{i}\<close> is returned and no longer address through \<open>i\<close>; when \<open>g\<close> has size 1, the
  address \<open>{i}\<close> is not returned, and the addresses through \<open>i\<close> are the addresses found
  inside that subgraph, with \<open>i\<close> in front.
\<close>

theorem get_paths_to_graph_no_nested_occurrence:
  "(\<forall>p \<in> set (get_paths_to_graph g t). \<forall>q \<in> set (get_paths_to_graph g t). \<not> strict_prefix p q)
   \<and> (\<forall>i < num_subgraphs g. graph_eq (subgraphs g ! i) t \<longrightarrow>
         (1 < size_graph g \<longrightarrow>
            [int i] \<in> set (get_paths_to_graph g t)
            \<and> (\<forall>r. r \<noteq> [] \<longrightarrow> int i # r \<notin> set (get_paths_to_graph g t)))
         \<and> (size_graph g = 1 \<longrightarrow>
            [int i] \<notin> set (get_paths_to_graph g t)
            \<and> (\<forall>r. int i # r \<in> set (get_paths_to_graph g t)
                     \<longleftrightarrow> r \<in> set (get_paths_to_graph (subgraphs g ! i) t))))"
proof (intro conjI allI impI ballI)
  fix p q assume "p \<in> set (get_paths_to_graph g t)" "q \<in> set (get_paths_to_graph g t)"
  then show "\<not> strict_prefix p q" by (rule get_paths_to_graph_prefix_free)
next
  fix i assume "i < num_subgraphs g" "graph_eq (subgraphs g ! i) t" "1 < size_graph g"
  then show "[int i] \<in> set (get_paths_to_graph g t)"
    by (cases g) (auto simp: in_get_paths_to_graph size_graph_def num_subgraphs_def num_atoms_def)
next
  fix i and r :: "int list" assume "i < num_subgraphs g" "graph_eq (subgraphs g ! i) t" "1 < size_graph g" "r \<noteq> []"
  then show "int i # r \<notin> set (get_paths_to_graph g t)"
    by (cases g) (auto simp: in_get_paths_to_graph size_graph_def num_subgraphs_def num_atoms_def)
next
  fix i assume "i < num_subgraphs g" "graph_eq (subgraphs g ! i) t" "size_graph g = 1"
  then show "[int i] \<notin> set (get_paths_to_graph g t)"
    using get_paths_to_graph_nonempty
    by (cases g) (auto simp: in_get_paths_to_graph size_graph_def num_subgraphs_def num_atoms_def)
next
  fix i and r :: "int list" assume "i < num_subgraphs g" "graph_eq (subgraphs g ! i) t" "size_graph g = 1"
  then show "int i # r \<in> set (get_paths_to_graph g t)
             \<longleftrightarrow> r \<in> set (get_paths_to_graph (subgraphs g ! i) t)"
    by (cases g) (auto simp: in_get_paths_to_graph size_graph_def num_subgraphs_def num_atoms_def)
qed

theorem get_paths_to_graph_no_nested_occurrence_witness:
  "[0] \<in> set (get_paths_to_graph
       (AEGraph True [''A''] [AEGraph False [''X''] [], AEGraph False [] [AEGraph False [''X''] []]])
       (AEGraph False [''X''] []))
   \<and> [0] \<notin> set (get_paths_to_graph
       (AEGraph False [] [AEGraph False [''X''] []]) (AEGraph False [''X''] []))"
proof -
  let ?t = "AEGraph False [''X''] []"
  let ?h = "AEGraph False [] [?t]"
  let ?g = "AEGraph True [''A''] [?t, ?h]"
  have e: "graph_eq ?t ?t" by (simp add: graph_eq_def)
  have g: "0 < num_subgraphs ?g" "subgraphs ?g ! 0 = ?t" "1 < size_graph ?g"
    by (simp_all add: num_subgraphs_def num_atoms_def size_graph_def)
  have h: "0 < num_subgraphs ?h" "subgraphs ?h ! 0 = ?t" "size_graph ?h = 1"
    by (simp_all add: num_subgraphs_def num_atoms_def size_graph_def)
  have 1: "[int 0] \<in> set (get_paths_to_graph ?g ?t)"
    using get_paths_to_graph_no_nested_occurrence [of ?g ?t] g e by metis
  have 2: "[int 0] \<notin> set (get_paths_to_graph ?h ?t)"
    using get_paths_to_graph_no_nested_occurrence [of ?h ?t] h e by metis
  from 1 2 show ?thesis by simp
qed

section \<open>Construction canonicalizes, rule application does not\<close>

lemma canonical_sort_graph: "canonical (sort_graph g)"
proof (induction g)
  case (AEGraph sa ats subs)
  have "list_all canonical (sort_key repr (map sort_graph subs))"
    using AEGraph.IH by (auto simp: list_all_iff)
  then show ?case by simp
qed

lemma parse_Inr_sort_graph: "parse s = Inr g \<Longrightarrow> \<exists>h. g = sort_graph h"
  by (subst (asm) parse.simps) (auto simp del: sort_graph.simps simp: Let_def split: if_splits sum.splits)

lemma parse_result_canonical: "parse s = Inr g \<Longrightarrow> canonical g"
  using parse_Inr_sort_graph canonical_sort_graph by blast

text \<open>
  Claim C4, as the code has it. Every graph constructed from text is canonicalized: its
  atoms are sorted, its subgraphs are sorted by their rendered text, and so on in every
  subgraph. (The constructor ends with \<open>sort()\<close>; \<open>double_cut\<close>, \<open>erase\<close> and \<open>deiterate\<close> never
  call it, and the graphs they return need not be canonicalized: see the counterexample
  below.)
\<close>

theorem parse_canonical: "parse s = Inr g \<Longrightarrow> canonical g"
  by (rule parse_result_canonical)

theorem parse_canonical_witness:
  "parse ''(Z, [B, A], A, [[D], C])'' =
     Inr (AEGraph True [''A'', ''Z'']
            [AEGraph False [''A'', ''B''] [], AEGraph False [''C''] [AEGraph False [''D''] []]])
   \<and> canonical (AEGraph True [''A'', ''Z'']
            [AEGraph False [''A'', ''B''] [], AEGraph False [''C''] [AEGraph False [''D''] []]])"
proof -
  have 1: "parse ''(Z, [B, A], A, [[D], C])'' =
     Inr (AEGraph True [''A'', ''Z'']
            [AEGraph False [''A'', ''B''] [], AEGraph False [''C''] [AEGraph False [''D''] []]])"
    by code_simp
  from 1 parse_canonical [OF 1] show ?thesis by simp
qed

text \<open>
  The graphs constructed from \<open>"(D, [[C]])"\<close>, \<open>"([[[A, Z], [B]]])"\<close> and
  \<open>"(A, [[A, Z], [B]])"\<close> are canonicalized; \<open>double_cut\<close>, \<open>erase\<close> and \<open>deiterate\<close>, each at an
  address its enumerator returns, give graphs that are not: the atoms \<open>D, C\<close>, and the
  subgraphs \<open>[Z], [B]\<close>.
\<close>

theorem rule_application_not_canonical_counterexample:
  "(parse ''(D, [[C]])'' = Inr (AEGraph True [''D''] [AEGraph False [] [AEGraph False [''C''] []]])
   \<and> possible_double_cuts (AEGraph True [''D''] [AEGraph False [] [AEGraph False [''C''] []]]) = [[0]]
   \<and> double_cut (AEGraph True [''D''] [AEGraph False [] [AEGraph False [''C''] []]]) [0]
       = Inr (AEGraph True [''D'', ''C''] [])
   \<and> \<not> canonical (AEGraph True [''D'', ''C''] []))
   \<and> (parse ''([[[A, Z], [B]]])'' =
         Inr (AEGraph True [] [AEGraph False [] [AEGraph False []
                [AEGraph False [''A'', ''Z''] [], AEGraph False [''B''] []]]])
      \<and> [0, 0, 0, 0] \<in> set (possible_erasures 0
            (AEGraph True [] [AEGraph False [] [AEGraph False []
                [AEGraph False [''A'', ''Z''] [], AEGraph False [''B''] []]]]))
      \<and> erase (AEGraph True [] [AEGraph False [] [AEGraph False []
                [AEGraph False [''A'', ''Z''] [], AEGraph False [''B''] []]]]) [0, 0, 0, 0]
          = Inr (AEGraph True [] [AEGraph False [] [AEGraph False []
                [AEGraph False [''Z''] [], AEGraph False [''B''] []]]])
      \<and> \<not> canonical (AEGraph True [] [AEGraph False [] [AEGraph False []
                [AEGraph False [''Z''] [], AEGraph False [''B''] []]]]))
   \<and> (parse ''(A, [[A, Z], [B]])'' =
         Inr (AEGraph True [''A''] [AEGraph False []
                [AEGraph False [''A'', ''Z''] [], AEGraph False [''B''] []]])
      \<and> [0, 0, 0] \<in> set (possible_deiterations
            (AEGraph True [''A''] [AEGraph False []
                [AEGraph False [''A'', ''Z''] [], AEGraph False [''B''] []]]))
      \<and> deiterate (AEGraph True [''A''] [AEGraph False []
                [AEGraph False [''A'', ''Z''] [], AEGraph False [''B''] []]]) [0, 0, 0]
          = Inr (AEGraph True [''A''] [AEGraph False []
                [AEGraph False [''Z''] [], AEGraph False [''B''] []]])
      \<and> \<not> canonical (AEGraph True [''A''] [AEGraph False []
                [AEGraph False [''Z''] [], AEGraph False [''B''] []]]))"
  by code_simp

section \<open>Stripping\<close>

lemma strip_Nil [simp]: "strip [] = []"
  by (simp add: strip_def)

lemma strip_ends:
  assumes "strip s \<noteq> []"
  shows "\<not> is_ws (hd (strip s)) \<and> \<not> is_ws (last (strip s))"
proof -
  let ?t = "dropWhile is_ws s"
  let ?u = "dropWhile is_ws (rev ?t)"
  from assms have u: "?u \<noteq> []" by (simp add: strip_def)
  then have "\<not> is_ws (hd ?u)" by (rule hd_dropWhile)
  then have l: "\<not> is_ws (last (strip s))" using u by (simp add: strip_def last_rev)
  have "rev ?t = takeWhile is_ws (rev ?t) @ ?u" by simp
  then have "?t = rev ?u @ rev (takeWhile is_ws (rev ?t))"
    by (metis rev_append rev_rev_ident)
  then have "hd ?t = hd (rev ?u)" using u by (metis hd_append2 rev_is_Nil_conv)
  moreover have "?t \<noteq> []"
  proof
    assume e: "?t = []"
    have "?u = []" unfolding e by simp
    with u show False by simp
  qed
  then have "\<not> is_ws (hd ?t)" by (rule hd_dropWhile)
  ultimately have "\<not> is_ws (hd (strip s))" by (simp add: strip_def)
  with l show ?thesis by simp
qed

lemma strip_id: "s \<noteq> [] \<Longrightarrow> \<not> is_ws (hd s) \<Longrightarrow> \<not> is_ws (last s) \<Longrightarrow> strip s = s"
proof -
  assume s: "s \<noteq> []" and h: "\<not> is_ws (hd s)" and l: "\<not> is_ws (last s)"
  from s h have 1: "dropWhile is_ws s = s" by (cases s) simp_all
  from s l have "\<not> is_ws (hd (rev s))" by (simp add: hd_rev)
  with s have 2: "dropWhile is_ws (rev s) = rev s" by (cases "rev s") simp_all
  show ?thesis by (simp add: strip_def 1 2)
qed

lemma strip_strip [simp]: "strip (strip s) = strip s"
  by (cases "strip s = []") (simp_all add: strip_id strip_ends)

lemma strip_blank_front: "is_ws c \<Longrightarrow> strip (c # s) = strip s"
  by (simp add: strip_def)

section \<open>Rendering as a joined list\<close>

lemma fold_snoc_sep:
  "fold (\<lambda>x r. r @ f x @ sep) xs init = init @ concat (map (\<lambda>x. f x @ sep) xs)"
  by (induction xs arbitrary: init) simp_all

lemma concat_sep_join:
  "ys \<noteq> [] \<Longrightarrow> concat (map (\<lambda>x. x @ '', '') xs) @ join ys = join (xs @ ys)"
proof (induction xs)
  case Nil
  then show ?case by simp
next
  case (Cons x xs)
  then show ?case by (cases "xs @ ys") simp_all
qed

lemma concat_sep_butlast:
  "xs \<noteq> [] \<Longrightarrow> concat (map (\<lambda>x. x @ '', '') xs) = join xs @ '', ''"
proof (induction xs rule: join.induct)
  case 1
  then show ?case by simp
next
  case (2 x)
  then show ?case by simp
next
  case (3 x y zs)
  then show ?case by simp
qed

lemma atoms_loop:
  "fold (\<lambda>i r. r @ ats ! i @ '', '') [0..<length ats - 1] init
     = init @ concat (map (\<lambda>x. x @ '', '') (butlast ats))"
proof -
  have "map (\<lambda>i. ats ! i @ '', '') [0..<length ats - 1] = map (\<lambda>x. x @ '', '') (butlast ats)"
    by (rule nth_equalityI) (simp_all add: nth_butlast)
  then show ?thesis
    using fold_snoc_sep [of "\<lambda>i. ats ! i" "'', ''" "[0..<length ats - 1]" init] by simp
qed

lemma repr_join:
  "repr (AEGraph sa ats subs) =
     (if sa then ''('' else ''['') @ join (map repr subs @ ats) @ (if sa then '')'' else '']'')"
proof -
  let ?res = "concat (map (\<lambda>x. x @ '', '') (map repr subs))"
  have res: "fold (\<lambda>subgraph r. r @ repr subgraph @ '', '') subs [] = ?res"
    using fold_snoc_sep [of repr "'', ''" subs "[]"] by (simp add: comp_def)
  show ?thesis
  proof (cases "ats = []")
    case True
    show ?thesis
    proof (cases "subs = []")
      case True
      with \<open>ats = []\<close> show ?thesis by simp
    next
      case False
      then have "?res = join (map repr subs) @ '', ''"
        using concat_sep_butlast [of "map repr subs"] by simp
      then have "take (length ?res - 2) ?res = join (map repr subs)" by simp
      with \<open>ats = []\<close> False res show ?thesis by (simp add: Let_def)
    qed
  next
    case False
    then have "ats = butlast ats @ [last ats]" by simp
    then have j: "join (map repr subs @ ats)
        = ?res @ concat (map (\<lambda>x. x @ '', '') (butlast ats)) @ last ats"
      using concat_sep_join [of "[last ats]" "map repr subs @ butlast ats"]
      by (metis (no_types, lifting) append.assoc concat_append join.simps(2) map_append not_Cons_self2)
    have "ats ! (length ats - 1) = last ats" using False by (simp add: last_conv_nth)
    with False res j show ?thesis by (simp add: Let_def atoms_loop [simplified])
  qed
qed

section \<open>Splitting a joined list\<close>

lemma split_first_loop_nested:
  "nest s j = Some m \<Longrightarrow> int j < n \<Longrightarrow>
   split_first_loop d pre (s @ t) n = split_first_loop d (pre @ s) t (n - int j + int m)"
proof (induction s arbitrary: j n pre)
  case Nil
  then show ?case by simp
next
  case (Cons c cs)
  from Cons.prems(2) have n0: "n \<noteq> 0" by simp
  show ?case
  proof (cases "c = CHR ''[''")
    case True
    with Cons.prems have "nest cs (Suc j) = Some m" "int (Suc j) < n + 1" by simp_all
    from Cons.IH [OF this, of "pre @ [c]"] True n0 show ?thesis by (simp add: Let_def)
  next
    case False
    show ?thesis
    proof (cases "c = CHR '']''")
      case True
      with Cons.prems obtain j' where j': "j = Suc j'" "nest cs j' = Some m"
        by (cases j) simp_all
      with Cons.prems(2) have lt: "int j' < n - 1" by simp
      have eq: "n - 1 - int j' + int m = n - int j + int m" using j'(1) by simp
      have "split_first_loop d pre ((c # cs) @ t) n = split_first_loop d (pre @ [c]) (cs @ t) (n - 1)"
        using True n0 by (simp add: Let_def)
      also have "\<dots> = split_first_loop d ((pre @ [c]) @ cs) t (n - 1 - int j' + int m)"
        by (rule Cons.IH [OF j'(2) lt])
      also have "\<dots> = split_first_loop d (pre @ c # cs) t (n - int j + int m)"
        unfolding eq by simp
      finally show ?thesis .
    next
      case False
      with \<open>c \<noteq> CHR ''[''\<close> Cons.prems have "nest cs j = Some m" by simp
      from Cons.IH [OF this Cons.prems(2), of "pre @ [c]"] False \<open>c \<noteq> CHR ''[''\<close> n0 show ?thesis
        by (simp add: Let_def)
    qed
  qed
qed

lemma matched_loop:
  "matched s n \<Longrightarrow>
   split_first_loop (CHR '','') pre (s @ t) (int n) = split_first_loop (CHR '','') (pre @ s) t 0"
proof (induction s arbitrary: n pre)
  case Nil
  then show ?case by simp
next
  case (Cons c cs)
  show ?case
  proof (cases "c = CHR ''[''")
    case True
    with Cons.prems have "matched cs (Suc n)" by simp
    from Cons.IH [OF this, of "pre @ [c]"] True show ?thesis by (simp add: Let_def add.commute)
  next
    case False
    show ?thesis
    proof (cases "c = CHR '']''")
      case True
      with Cons.prems obtain m where m: "n = Suc m" "matched cs m" by (cases n) simp_all
      from Cons.IH [OF m(2), of "pre @ [c]"] True m(1) show ?thesis by (simp add: Let_def)
    next
      case False
      with \<open>c \<noteq> CHR ''[''\<close> Cons.prems have c: "c = CHR '','' \<longrightarrow> 0 < n" and "matched cs n"
        by simp_all
      from Cons.IH [OF this(2), of "pre @ [c]"] False \<open>c \<noteq> CHR ''[''\<close> c show ?thesis
        by (auto simp: Let_def)
    qed
  qed
qed

lemma transparent_atom: "plain_atom a \<Longrightarrow> transparent a"
  unfolding transparent_def plain_atom_def using matched_loop [of a 0] by simp

lemma transparent_cut:
  assumes "nest body 0 = Some 0"
  shows "transparent (''['' @ body @ '']'')"
  unfolding transparent_def
proof (intro allI)
  fix pre t
  have "split_first_loop (CHR '','') pre ((''['' @ body @ '']'') @ t) 0
        = split_first_loop (CHR '','') (pre @ ''['') (body @ ('']'' @ t)) 1"
    by (simp add: Let_def)
  also have "\<dots> = split_first_loop (CHR '','') ((pre @ ''['') @ body) ('']'' @ t) 1"
    using split_first_loop_nested [OF assms, of 1] by simp
  also have "\<dots> = split_first_loop (CHR '','') (pre @ (''['' @ body @ '']'')) t 0"
    by (simp add: Let_def)
  finally show "split_first_loop (CHR '','') pre ((''['' @ body @ '']'') @ t) 0
        = split_first_loop (CHR '','') (pre @ (''['' @ body @ '']'')) t 0" .
qed

lemma nest_append: "nest (s @ t) n = (case nest s n of None \<Rightarrow> None | Some m \<Rightarrow> nest t m)"
  by (induction s arbitrary: n) (auto split: nat.splits)

lemma nest_shift: "nest s n = Some m \<Longrightarrow> nest s (n + k) = Some (m + k)"
proof (induction s arbitrary: n)
  case Nil
  then show ?case by simp
next
  case (Cons c cs)
  show ?case
  proof (cases "c = CHR '']''")
    case True
    with Cons.prems obtain n' where n': "n = Suc n'" "nest cs n' = Some m"
      by (cases n) simp_all
    from Cons.IH [OF n'(2)] True n'(1) show ?thesis by simp
  next
    case False
    then show ?thesis using Cons.IH [of "Suc n"] Cons.IH [of n] Cons.prems by (simp split: if_splits)
  qed
qed

lemma matched_nest: "matched s n \<Longrightarrow> nest s n = Some 0"
  by (induction s arbitrary: n) (auto split: if_splits nat.splits)

lemma nest_atom: "plain_atom a \<Longrightarrow> nest a 0 = Some 0"
  by (simp add: plain_atom_def matched_nest)

lemma nest_join: "(\<And>x. x \<in> set xs \<Longrightarrow> nest x 0 = Some 0) \<Longrightarrow> nest (join xs) 0 = Some 0"
  by (induction xs rule: join.induct) (simp_all add: nest_append)

lemma strip_item: "item x \<Longrightarrow> strip x = x"
  by (cases "x = []") (simp_all add: item_def strip_id)

lemma join_items_ends:
  "xs \<noteq> [] \<Longrightarrow> (\<And>x. x \<in> set xs \<Longrightarrow> item x) \<Longrightarrow> last xs \<noteq> [] \<Longrightarrow>
   join xs \<noteq> [] \<and> \<not> is_ws (hd (join xs)) \<and> \<not> is_ws (last (join xs))"
proof (induction xs rule: join.induct)
  case 1
  then show ?case by simp
next
  case (2 x)
  then show ?case by (simp add: item_def)
next
  case (3 x y zs)
  have x: "item x" using "3.prems"(2) by simp
  have r: "join (y # zs) \<noteq> [] \<and> \<not> is_ws (hd (join (y # zs))) \<and> \<not> is_ws (last (join (y # zs)))"
    using "3.IH" "3.prems"(2,3) by simp
  show ?case
  proof (cases "x = []")
    case True
    with r show ?thesis by (simp add: is_ws_def)
  next
    case False
    with r x show ?thesis by (simp add: item_def)
  qed
qed

lemma split_first_item: "item x \<Longrightarrow> split_first (CHR '','') x = (x, [])"
proof -
  assume x: "item x"
  then have "split_first_loop (CHR '','') [] (x @ []) 0 = split_first_loop (CHR '','') ([] @ x) [] 0"
    unfolding item_def transparent_def by blast
  then show ?thesis using strip_item [OF x] by (simp add: split_first_def)
qed

lemma split_first_item_more:
  assumes x: "item x" and r: "rest \<noteq> []" "\<not> is_ws (hd rest)" "\<not> is_ws (last rest)"
  shows "split_first (CHR '','') (x @ '', '' @ rest) = (x, rest)"
proof -
  from x have "split_first_loop (CHR '','') [] (x @ ('', '' @ rest)) 0
                 = split_first_loop (CHR '','') ([] @ x) ('', '' @ rest) 0"
    unfolding item_def transparent_def by blast
  moreover have "strip (CHR '' '' # rest) = rest"
    using r by (simp add: strip_blank_front is_ws_def strip_id)
  ultimately show ?thesis using strip_item [OF x] by (simp add: split_first_def)
qed

lemma split_level_join:
  "xs \<noteq> [] \<Longrightarrow> (\<And>x. x \<in> set xs \<Longrightarrow> item x) \<Longrightarrow> length xs = 1 \<or> last xs \<noteq> [] \<Longrightarrow>
   split_level (CHR '','') (join xs) = xs"
proof (induction xs rule: join.induct)
  case 1
  then show ?case by simp
next
  case (2 x)
  then have "item x" by simp
  then show ?case by (simp add: split_level.simps [of _ x] split_first_item)
next
  case (3 x y zs)
  have x: "item x" using "3.prems"(2) by simp
  have l: "last (y # zs) \<noteq> []" using "3.prems"(3) by simp
  have e: "join (y # zs) \<noteq> [] \<and> \<not> is_ws (hd (join (y # zs))) \<and> \<not> is_ws (last (join (y # zs)))"
    using join_items_ends [of "y # zs"] "3.prems"(2) l by simp
  have "split_level (CHR '','') (join (y # zs)) = y # zs"
    using "3.IH" "3.prems"(2) l by simp
  moreover have "split_first (CHR '','') (join (x # y # zs)) = (x, join (y # zs))"
    using split_first_item_more [OF x, of "join (y # zs)"] e by simp
  ultimately show ?case
    using e by (simp add: split_level.simps [of _ "join (x # y # zs)"] del: join.simps)
qed

lemma split_level_empty: "split_level (CHR '','') [] = [[]]"
  by (simp add: split_level.simps [of _ "[]"] split_first_def)

section \<open>Constructing a graph from its own text\<close>

lemma parse_paren:
  "parse (''('' @ body @ '')'') =
     (case collect (map parse (filter starts_cut (split_level (CHR '','') body))) of
        Inl e \<Rightarrow> Inl e
      | Inr subs \<Rightarrow>
          Inr (sort_graph (AEGraph True
                 (filter (\<lambda>s. \<not> starts_cut s) (split_level (CHR '','') body)) subs)))"
  by (subst parse.simps) (simp add: Let_def del: sort_graph.simps split: sum.splits)

lemma parse_bracket:
  "parse (''['' @ body @ '']'') =
     (case collect (map parse (filter starts_cut (split_level (CHR '','') body))) of
        Inl e \<Rightarrow> Inl e
      | Inr subs \<Rightarrow>
          Inr (sort_graph (AEGraph False
                 (filter (\<lambda>s. \<not> starts_cut s) (split_level (CHR '','') body)) subs)))"
  by (subst parse.simps) (simp add: Let_def del: sort_graph.simps split: sum.splits)

lemma canonical_sort_graph_id: "canonical g \<Longrightarrow> sort_graph g = g"
proof (induction g)
  case (AEGraph sa ats subs)
  from AEGraph.prems have s: "sorted ats" "sorted (map repr subs)" "list_all canonical subs"
    by simp_all
  have "map sort_graph subs = subs"
    using AEGraph.IH s(3) by (simp add: list_all_iff map_idI)
  moreover have "sort ats = ats" using s(1) by (simp add: sort_key_id_if_sorted)
  moreover have "sort_key repr subs = subs" using s(2) by (rule sort_key_id_if_sorted)
  ultimately show ?case by simp
qed

lemma collect_map:
  "(\<And>x. x \<in> set xs \<Longrightarrow> \<exists>y. f x = Inr y \<and> P x y) \<Longrightarrow>
   \<exists>ys. collect (map f xs) = Inr ys \<and> list_all2 P xs ys"
proof (induction xs)
  case Nil
  then show ?case by simp
next
  case (Cons x xs)
  from Cons.prems obtain y where y: "f x = Inr y" "P x y" by auto
  from Cons.IH Cons.prems obtain ys where "collect (map f xs) = Inr ys" "list_all2 P xs ys"
    by auto
  with y show ?case by simp
qed

lemma nest_repr: "well_formed g \<Longrightarrow> nest (repr g) 0 = Some 0"
proof (induction g)
  case (AEGraph sa ats subs)
  have "nest x 0 = Some 0" if "x \<in> set (map repr subs @ ats)" for x
    using that AEGraph.IH AEGraph.prems by (auto simp: list_all_iff nest_atom)
  then have b: "nest (join (map repr subs @ ats)) 0 = Some 0" by (rule nest_join)
  from nest_shift [OF b, of 1] have b1: "nest (join (map repr subs @ ats)) (Suc 0) = Some (Suc 0)"
    by simp
  show ?case
    by (cases sa) (simp_all add: repr_join nest_append b b1 del: repr.simps)
qed

lemma nest_body:
  "well_formed (AEGraph sa ats subs) \<Longrightarrow> nest (join (map repr subs @ ats)) 0 = Some 0"
proof -
  assume w: "well_formed (AEGraph sa ats subs)"
  have "nest x 0 = Some 0" if "x \<in> set (map repr subs @ ats)" for x
    using that w by (auto simp: list_all_iff nest_atom nest_repr)
  then show ?thesis by (rule nest_join)
qed

lemma item_atom: "plain_atom a \<Longrightarrow> item a"
  by (simp add: item_def transparent_atom) (simp add: plain_atom_def)

lemma item_repr_cut: "well_formed c \<Longrightarrow> \<not> is_SA c \<Longrightarrow> item (repr c) \<and> starts_cut (repr c)"
proof (cases c)
  case (AEGraph sa ats subs)
  assume w: "well_formed c" and "\<not> is_SA c"
  with AEGraph have sa: "\<not> sa" by simp
  have r: "repr c = ''['' @ join (map repr subs @ ats) @ '']''"
    using sa AEGraph by (simp add: repr_join del: repr.simps)
  have "transparent (repr c)"
    unfolding r using nest_body w AEGraph by (intro transparent_cut) blast
  then show ?thesis by (simp add: item_def r starts_cut_def is_ws_def)
qed

lemma atom_not_cut: "plain_atom a \<Longrightarrow> \<not> starts_cut a"
  by (simp add: plain_atom_def)

lemma filter_cuts:
  "(\<And>x. x \<in> set xs \<Longrightarrow> starts_cut x) \<Longrightarrow> (\<And>y. y \<in> set ys \<Longrightarrow> \<not> starts_cut y) \<Longrightarrow>
   filter starts_cut (xs @ ys) = xs \<and> filter (\<lambda>s. \<not> starts_cut s) (xs @ ys) = ys"
  by (simp add: filter_id_conv filter_empty_conv)

lemma parse_repr_roundtrip:
  "well_formed g \<Longrightarrow> canonical g \<Longrightarrow> \<exists>g'. parse (repr g) = Inr g' \<and> repr g' = repr g"
proof (induction g)
  case (AEGraph sa ats subs)
  let ?items = "map repr subs @ ats"
  let ?body = "join ?items"
  let ?g = "AEGraph sa ats subs"
  have wf: "list_all plain_atom ats" "\<And>c. c \<in> set subs \<Longrightarrow> \<not> is_SA c \<and> well_formed c"
    and la: "ats = [] \<or> last ats \<noteq> [] \<or> (length ats = 1 \<and> subs = [])"
    using AEGraph.prems(1) by (simp_all add: list_all_iff)
  have can: "sorted ats" "sorted (map repr subs)" "\<And>c. c \<in> set subs \<Longrightarrow> canonical c"
    using AEGraph.prems(2) by (simp_all add: list_all_iff)
  have p: "parse (repr ?g) =
     (case collect (map parse (filter starts_cut (split_level (CHR '','') ?body))) of
        Inl e \<Rightarrow> Inl e
      | Inr subs' \<Rightarrow>
          Inr (sort_graph (AEGraph sa
                 (filter (\<lambda>s. \<not> starts_cut s) (split_level (CHR '','') ?body)) subs')))"
    by (cases sa) (simp_all only: repr_join parse_paren parse_bracket if_True if_False)
  show ?case
  proof (cases "?items = []")
    case True
    then have e: "ats = []" "subs = []" by simp_all
    have "parse (repr ?g) = Inr (AEGraph sa [[]] [])"
      unfolding p by (simp add: e split_level_empty starts_cut_def)
    moreover have "repr (AEGraph sa [[]] []) = repr ?g" by (simp add: e)
    ultimately show ?thesis by blast
  next
    case False
    have items: "item x" if "x \<in> set ?items" for x
      using that wf item_repr_cut item_atom by (auto simp: list_all_iff)
    have last_item: "length ?items = 1 \<or> last ?items \<noteq> []"
    proof (cases "ats = []")
      case True
      with False have s: "subs \<noteq> []" by simp
      then have "last subs \<in> set subs" by simp
      then have "starts_cut (repr (last subs))" using wf(2) item_repr_cut by blast
      then have "repr (last subs) \<noteq> []" by (auto simp: starts_cut_def)
      with True s show ?thesis by (simp add: last_map)
    next
      case False
      with la show ?thesis by auto
    qed
    have v: "split_level (CHR '','') ?body = ?items"
      using split_level_join [OF False _ last_item] items by blast
    have f: "filter starts_cut ?items = map repr subs
             \<and> filter (\<lambda>s. \<not> starts_cut s) ?items = ats"
      using wf item_repr_cut atom_not_cut by (intro filter_cuts) (auto simp: list_all_iff)
    have "\<exists>c'. parse (repr c) = Inr c' \<and> repr c' = repr c" if "c \<in> set subs" for c
      using AEGraph.IH [OF that] wf(2) [OF that] can(3) [OF that] by blast
    then have "\<exists>ys. collect (map (\<lambda>c. parse (repr c)) subs) = Inr ys
                 \<and> list_all2 (\<lambda>c c'. parse (repr c) = Inr c' \<and> repr c' = repr c) subs ys"
      by (intro collect_map) blast
    then obtain subs' where c: "collect (map (\<lambda>c. parse (repr c)) subs) = Inr subs'"
      and l: "list_all2 (\<lambda>c c'. parse (repr c) = Inr c' \<and> repr c' = repr c) subs subs'"
      by blast
    from l have reprs: "map repr subs' = map repr subs"
      by (induction rule: list_all2_induct) simp_all
    from l have "list_all canonical subs'"
      by (induction rule: list_all2_induct) (auto dest: parse_result_canonical)
    with can(1,2) reprs have "canonical (AEGraph sa ats subs')" by simp
    then have s: "sort_graph (AEGraph sa ats subs') = AEGraph sa ats subs'"
      by (rule canonical_sort_graph_id)
    have "parse (repr ?g) = Inr (AEGraph sa ats subs')"
      unfolding p v using f c s by (simp add: comp_def del: sort_graph.simps)
    moreover have "repr (AEGraph sa ats subs') = repr ?g"
      by (simp only: repr_join reprs)
    ultimately show ?thesis by blast
  qed
qed

text \<open>
  The constructor's loop over the elements stops at an empty rest, so an empty atom that
  is the last of several elements is lost: the graph below renders as \<open>"([], )"\<close>, and the
  graph constructed from that text renders as \<open>"([])"\<close>. Such graphs are not well-formed.
\<close>

lemma empty_last_element_dropped:
  "repr (AEGraph True [''''] [AEGraph False [''''] []]) = ''([], )''
   \<and> parse ''([], )'' = Inr (AEGraph True [] [AEGraph False [''''] []])
   \<and> repr (AEGraph True [] [AEGraph False [''''] []]) = ''([])''
   \<and> \<not> well_formed (AEGraph True [''''] [AEGraph False [''''] []])"
  by code_simp

text \<open>
  Claim C3, as the code has it. For every canonicalized graph whose nested nodes are
  cuts, whose atoms have matched brackets, commas inside brackets only, no \<open>[\<close> at the
  start and no blank at either end, and in which no node has the empty atom as the last of
  several elements, the constructor accepts the rendered text of the graph and builds a
  graph equal to it (by \<open>operator==\<close>): both render to the same text. This covers the
  graphs with empty cuts as the constructor builds them, with the empty string as the
  atom of the cut.
\<close>

theorem parse_repr_well_formed:
  "canonical g \<Longrightarrow> well_formed g \<Longrightarrow> \<exists>g'. parse (repr g) = Inr g' \<and> graph_eq g' g"
  unfolding graph_eq_def by (rule parse_repr_roundtrip)

theorem parse_repr_well_formed_witness:
  "\<exists>g'. parse (repr (AEGraph True ['''', ''A'', ''Z'', ''f[a, b]'']
            [AEGraph False [''A'', ''B''] [], AEGraph False [''C''] [AEGraph False [''''] []],
             AEGraph False [] []])) = Inr g'
        \<and> graph_eq g' (AEGraph True ['''', ''A'', ''Z'', ''f[a, b]'']
            [AEGraph False [''A'', ''B''] [], AEGraph False [''C''] [AEGraph False [''''] []],
             AEGraph False [] []])"
proof -
  let ?g = "AEGraph True ['''', ''A'', ''Z'', ''f[a, b]'']
            [AEGraph False [''A'', ''B''] [], AEGraph False [''C''] [AEGraph False [''''] []],
             AEGraph False [] []]"
  have c: "canonical ?g" by code_simp
  have w: "well_formed ?g" by code_simp
  from parse_repr_well_formed [OF c w] show ?thesis .
qed

text \<open>
  An atom may hold a bracket that is not matched: the graph constructed from
  \<open>"(B, [A[])"\<close> has the cut with the atom \<open>A[\<close>. It is canonicalized and renders as
  \<open>"([A[], B)"\<close>. In that text the scan never returns to depth 0 before the comma, so the
  whole text is one element that starts with \<open>[\<close> and does not end with \<open>]\<close>: the
  constructor fails its \<open>assert\<close>.
\<close>

theorem parse_repr_counterexample:
  "parse ''(B, [A[])'' = Inr (AEGraph True [''B''] [AEGraph False [''A[''] []])
   \<and> canonical (AEGraph True [''B''] [AEGraph False [''A[''] []])
   \<and> repr (AEGraph True [''B''] [AEGraph False [''A[''] []]) = ''([A[], B)''
   \<and> parse ''([A[], B)'' = Inl AssertionFailed"
  by code_simp

section \<open>The atoms of a constructed graph\<close>

lemma no_split_loop: "no_split d s n \<Longrightarrow> split_first_loop d pre s n = (strip (pre @ s), [])"
  by (induction s arbitrary: pre n) (auto simp: Let_def)

lemma split_first_loop_fst:
  "\<exists>s1 s2. s = s1 @ s2 \<and> no_split d s1 n \<and> fst (split_first_loop d pre s n) = strip (pre @ s1)"
proof (induction s arbitrary: pre n)
  case Nil
  show ?case by simp
next
  case (Cons c cs)
  show ?case
  proof (cases "c = d \<and> n = 0")
    case True
    then have "c # cs = [] @ (c # cs) \<and> no_split d [] n
               \<and> fst (split_first_loop d pre (c # cs) n) = strip (pre @ [])" by simp
    then show ?thesis by blast
  next
    case False
    let ?n' = "(let numOpen1 = (if c = CHR ''['' then n + 1 else n);
                   numOpen2 = (if c = CHR '']'' then numOpen1 - 1 else numOpen1) in numOpen2)"
    from Cons.IH [of ?n' "pre @ [c]"] obtain s1 s2 where
      s: "cs = s1 @ s2" "no_split d s1 ?n'"
         "fst (split_first_loop d (pre @ [c]) cs ?n') = strip ((pre @ [c]) @ s1)"
      by blast
    have "c # cs = (c # s1) @ s2" using s(1) by simp
    moreover have "no_split d (c # s1) n" using False s(2) by (auto simp: Let_def)
    moreover have "fst (split_first_loop d pre (c # cs) n) = strip (pre @ (c # s1))"
      using False s(3) by (auto simp: Let_def)
    ultimately show ?thesis by blast
  qed
qed

lemma no_split_prefix: "no_split d (xs @ ys) n \<Longrightarrow> no_split d xs n"
  by (induction xs arbitrary: n) (auto simp: Let_def)

lemma no_split_dropWhile: "no_split d s n \<Longrightarrow> no_split d (dropWhile is_ws s) n"
  by (induction s arbitrary: n) (auto simp: Let_def is_ws_def)

lemma no_split_strip: "no_split d s n \<Longrightarrow> no_split d (strip s) n"
proof -
  assume a: "no_split d s n"
  let ?t = "dropWhile is_ws s"
  have "rev ?t = takeWhile is_ws (rev ?t) @ dropWhile is_ws (rev ?t)" by simp
  then have "?t = strip s @ rev (takeWhile is_ws (rev ?t))"
    unfolding strip_def by (metis rev_append rev_rev_ident)
  moreover have "no_split d ?t n" using a by (rule no_split_dropWhile)
  ultimately show ?thesis using no_split_prefix by metis
qed

lemma split_level_element:
  "x \<in> set (split_level d s) \<Longrightarrow> \<exists>s1. no_split d s1 0 \<and> x = strip s1"
proof (induction d s rule: split_level.induct)
  case (1 d s)
  let ?p = "split_first d s"
  from split_first_loop_fst [of s d 0 "[]"] have f: "\<exists>s1. no_split d s1 0 \<and> fst ?p = strip s1"
    by (auto simp: split_first_def)
  show ?case
  proof (cases "snd ?p = []")
    case True
    with "1.prems" have "x = fst ?p" by (simp add: split_level.simps [of d s] Let_def)
    with f show ?thesis by simp
  next
    case False
    with "1.prems" have "x = fst ?p \<or> x \<in> set (split_level d (snd ?p))"
      by (simp add: split_level.simps [of d s] Let_def)
    then show ?thesis using f "1.IH" [OF refl refl refl False] by auto
  qed
qed

lemma split_level_element_alone:
  assumes "x \<in> set (split_level d s)"
  shows "split_level d x = [x]"
proof -
  from split_level_element [OF assms] obtain s1 where s1: "no_split d s1 0" "x = strip s1" by blast
  from s1 have "no_split d x 0" by (simp add: no_split_strip)
  then have "split_first d x = (strip x, [])"
    using no_split_loop [of d x 0 "[]"] by (simp add: split_first_def)
  then show ?thesis using s1(2) by (subst split_level.simps) (simp add: Let_def)
qed

lemma token_paren: "token a \<Longrightarrow> parse (''('' @ a @ '')'') = Inr (AEGraph True [a] [])"
  using parse_paren [of a] by (simp add: token_def)

lemma token_empty: "token []"
  by (simp add: token_def split_level_empty starts_cut_def)

lemma tokens_only_sort_graph: "tokens_only g \<Longrightarrow> tokens_only (sort_graph g)"
proof (induction g)
  case (AEGraph sa ats subs)
  then show ?case by (auto simp: list_all_iff)
qed

lemma collect_Inr: "collect rs = Inr ys \<Longrightarrow> y \<in> set ys \<Longrightarrow> Inr y \<in> set rs"
proof (induction rs arbitrary: ys rule: collect.induct)
  case 1
  then show ?case by simp
next
  case (2 e rs)
  then show ?case by simp
next
  case (3 x rs)
  then show ?case by (auto split: sum.splits)
qed

lemma parse_tokens_only: "parse s = Inr g \<Longrightarrow> tokens_only g"
proof (induction s arbitrary: g rule: parse.induct)
  case (1 representation)
  let ?inner = "take (length representation - 2) (drop 1 representation)"
  let ?v = "split_level (CHR '','') ?inner"
  let ?ok = "(hd representation = CHR ''('' \<and> last representation = CHR '')'')
             \<or> (hd representation = CHR ''['' \<and> last representation = CHR '']'')"
  from "1.prems" have ne: "representation \<noteq> []" and ok: "?ok"
    by (subst (asm) parse.simps, auto simp: Let_def split: if_splits)+
  from "1.prems" ne ok obtain subs where
    c: "collect (map parse (filter starts_cut ?v)) = Inr subs"
    and g: "g = sort_graph (AEGraph (hd representation = CHR ''('')
                  (filter (\<lambda>s. \<not> starts_cut s) ?v) subs)"
    by (subst (asm) parse.simps) (auto simp: Let_def simp del: sort_graph.simps split: if_splits sum.splits)
  have "tokens_only y" if "y \<in> set subs" for y
  proof -
    from collect_Inr [OF c that] obtain x where x: "x \<in> set (filter starts_cut ?v)" "parse x = Inr y"
      by auto
    show ?thesis
      using "1.IH" [OF ne refl refl _ refl refl x(1) x(2)] ok by blast
  qed
  moreover have "token a" if "a \<in> set (filter (\<lambda>s. \<not> starts_cut s) ?v)" for a
    using that split_level_element_alone [of a "CHR '',''" ?inner] by (simp add: token_def)
  ultimately have "tokens_only (AEGraph (hd representation = CHR ''('')
                  (filter (\<lambda>s. \<not> starts_cut s) ?v) subs)"
    by (simp add: list_all_iff)
  then show ?case unfolding g by (rule tokens_only_sort_graph)
qed

section \<open>The accessor by index\<close>

lemma tokens_only_sel:
  "tokens_only g \<longleftrightarrow> list_all token (atoms g) \<and> list_all tokens_only (subgraphs g)"
  by (cases g) simp

lemma list_all_remove_nth: "list_all P xs \<Longrightarrow> list_all P (remove_nth i xs)"
  by (auto simp: remove_nth_def list_all_iff dest: in_set_takeD in_set_dropD)

lemma list_all_update: "list_all P xs \<Longrightarrow> P y \<Longrightarrow> list_all P (xs[i := y])"
  by (auto simp: list_all_iff dest: set_update_subset_insert [THEN subsetD])

lemma list_all_nth_opt: "list_all P xs \<Longrightarrow> nth_opt xs i = Some x \<Longrightarrow> P x"
  by (auto simp: nth_opt_def list_all_iff split: if_splits)

lemma erase_helper_tokens_only:
  "tokens_only node \<Longrightarrow> erase_helper a node = Inr g' \<Longrightarrow> tokens_only g'"
proof (induction a node arbitrary: g' rule: erase_helper.induct)
  case (1 node)
  then show ?case by simp
next
  case (2 w0 node)
  then show ?case
    by (auto simp: tokens_only_sel [of node] list_all_remove_nth split: if_splits)
next
  case (3 index v va node)
  from "3.prems"(2) obtain sub sub' where
    s: "nth_opt (subgraphs node) index = Some sub" "erase_helper (v # va) sub = Inr sub'"
       "g' = AEGraph (is_SA node) (atoms node) ((subgraphs node)[nat index := sub'])"
    by (auto split: option.splits sum.splits)
  have "tokens_only sub"
    using "3.prems"(1) s(1) list_all_nth_opt [of tokens_only] by (auto simp: tokens_only_sel [of node])
  then have "tokens_only sub'" using "3.IH" s(1,2) by blast
  then show ?case using "3.prems"(1) s(3) by (simp add: tokens_only_sel [of node] list_all_update)
qed

lemma double_cut_helper_tokens_only:
  "tokens_only node \<Longrightarrow> double_cut_helper a node = Inr g' \<Longrightarrow> tokens_only g'"
proof (induction a node arbitrary: g' rule: double_cut_helper.induct)
  case (1 node)
  then show ?case by simp
next
  case (2 w0 node)
  from "2.prems"(2) obtain outer aux rest where
    s: "nth_opt (subgraphs node) w0 = Some outer" "subgraphs outer = aux # rest"
       "g' = AEGraph (is_SA node) (atoms node @ atoms aux)
               (remove_nth (nat w0) (subgraphs node @ subgraphs aux))"
    by (auto split: option.splits list.splits)
  have "tokens_only outer"
    using "2.prems"(1) s(1) list_all_nth_opt [of tokens_only] by (auto simp: tokens_only_sel [of node])
  then have "tokens_only aux" using s(2) by (simp add: tokens_only_sel [of outer])
  then have "list_all token (atoms node @ atoms aux)"
    and "list_all tokens_only (subgraphs node @ subgraphs aux)"
    using "2.prems"(1) by (simp_all add: tokens_only_sel [of node] tokens_only_sel [of aux])
  then show ?case using s(3) by (simp add: list_all_remove_nth)
next
  case (3 index v va node)
  from "3.prems"(2) obtain sub sub' where
    s: "nth_opt (subgraphs node) index = Some sub" "double_cut_helper (v # va) sub = Inr sub'"
       "g' = AEGraph (is_SA node) (atoms node) ((subgraphs node)[nat index := sub'])"
    by (auto split: option.splits sum.splits)
  have "tokens_only sub"
    using "3.prems"(1) s(1) list_all_nth_opt [of tokens_only] by (auto simp: tokens_only_sel [of node])
  then have "tokens_only sub'" using "3.IH" s(1,2) by blast
  then show ?case using "3.prems"(1) s(3) by (simp add: tokens_only_sel [of node] list_all_update)
qed

lemma index_op_tokens_only:
  "tokens_only g \<Longrightarrow> index_op g i = Inr g' \<Longrightarrow> tokens_only g'"
  unfolding index_op_def
  by (auto simp: tokens_only_sel [of g] split: if_splits option.splits
           dest: parse_tokens_only list_all_nth_opt [of tokens_only])

lemma constructible_tokens_only: "constructible g \<Longrightarrow> tokens_only g"
proof (induction rule: constructible.induct)
  case (from_text s g)
  then show ?case by (rule parse_tokens_only)
next
  case (from_double_cut g a g')
  then show ?case using double_cut_helper_tokens_only by (simp add: double_cut_def)
next
  case (from_erase g a g')
  then show ?case using erase_helper_tokens_only by (simp add: erase_def)
next
  case (from_deiterate g a g')
  then show ?case
    using erase_helper_tokens_only by (simp add: deiterate_def deiterate_helper_eq_erase_helper)
next
  case (from_index g i g')
  then show ?case using index_op_tokens_only by blast
qed

text \<open>
  For a graph built through the public interface and a non-negative index, \<open>operator[]\<close>
  returns a graph and no error: the subgraph at the index, the sheet of assertion with the
  one atom at the index minus the number of subgraphs, or the graph that the constructor
  builds from \<open>"()"\<close>.
\<close>

lemma index_op_constructible:
  "constructible g \<Longrightarrow> 0 \<le> index \<Longrightarrow>
   index_op g index =
     (if index < int (num_subgraphs g) then Inr (subgraphs g ! nat index)
      else if index < int (num_subgraphs g) + int (num_atoms g)
      then Inr (AEGraph True [atoms g ! nat (index - int (num_subgraphs g))] [])
      else Inr (AEGraph True [''''] []))"
proof -
  assume c: "constructible g" and i: "0 \<le> index"
  have t: "list_all token (atoms g)"
    using constructible_tokens_only [OF c] by (simp add: tokens_only_sel [of g])
  have e: "parse ''()'' = Inr (AEGraph True [''''] [])"
    using token_paren [OF token_empty] by simp
  show ?thesis
  proof (cases "index < int (num_subgraphs g)")
    case True
    with i show ?thesis
      by (simp add: index_op_def nth_opt_def num_subgraphs_def)
  next
    case False
    show ?thesis
    proof (cases "index < int (num_subgraphs g) + int (num_atoms g)")
      case True
      with False have "nat (index - int (num_subgraphs g)) < length (atoms g)"
        by (simp add: num_atoms_def)
      then have "token (atoms g ! nat (index - int (num_subgraphs g)))"
        using t by (simp add: list_all_length)
      from token_paren [OF this] True False show ?thesis
        by (simp add: index_op_def)
    next
      case out: False
      with False e show ?thesis
        by (simp add: index_op_def)
    qed
  qed
qed

text \<open>
  Claim C9 has \<open>operator[]\<close> return an empty sheet-of-assertion node for an index out of
  range. The code returns the graph that the constructor builds from \<open>"()"\<close>, and the
  constructor stores the empty text as an atom (the defect of claim C5): the node returned
  has one atom, the empty string, and size 1. It is not the sheet without atoms and
  subgraphs, though it renders as the same text \<open>"()"\<close>. On the graph constructed from
  \<open>"(A, [B])"\<close>, index 0 gives the subgraph, index 1 the sheet with the one atom \<open>A\<close>, and
  index 2, out of range, gives that node.
\<close>

theorem index_op_out_of_range_not_empty:
  "parse ''(A, [B])'' = Inr (AEGraph True [''A''] [AEGraph False [''B''] []])
   \<and> index_op (AEGraph True [''A''] [AEGraph False [''B''] []]) 0 = Inr (AEGraph False [''B''] [])
   \<and> index_op (AEGraph True [''A''] [AEGraph False [''B''] []]) 1 = Inr (AEGraph True [''A''] [])
   \<and> index_op (AEGraph True [''A''] [AEGraph False [''B''] []]) 2 = Inr (AEGraph True [''''] [])
   \<and> num_atoms (AEGraph True [''''] []) = 1
   \<and> size_graph (AEGraph True [''''] []) = 1
   \<and> AEGraph True [''''] [] \<noteq> AEGraph True [] []
   \<and> repr (AEGraph True [''''] []) = ''()''
   \<and> repr (AEGraph True [] []) = ''()''"
  by code_simp

end
